theory Spec2Isabelle
  imports Complex_Main "HOL-Library.Product_Lexorder" "HOL-Library.AList"
    "HOL-Library.Multiset"
begin

section \<open>Data model\<close>

text \<open>
  Coordinates, widths and costs are Python numbers; they are modelled by exact rationals.
  The layer index \<open>z\<close> of a point is an integer (0 or 1 in the graphs the builder makes).
\<close>

record vector =
  vx :: rat
  vy :: rat

record vector3d =
  px :: rat
  py :: rat
  pz :: int

type_synonym lpp = "string \<times> string"

text \<open>A shape (pin or blockage): its net name, its layer-purpose pair and its rectangle
  \<open>rect = (ll, ur)\<close>.\<close>

record shape =
  name :: string
  lpp :: lpp
  rect :: "vector \<times> vector"

text \<open>
  A \<open>hanan_node\<close> object. Python holds nodes by reference; here a reference is the node's
  id (unique, handed out by the class counter \<open>hanan_node.next_id\<close>), and the objects live
  in a store that maps ids to the node's fields. \<open>neighbors\<close> holds references.
\<close>

record hanan_node =
  center :: vector3d
  neighbors :: "nat list"

type_synonym store = "(nat \<times> hanan_node) list"

record router =
  blockages :: "shape list"
  pins :: "(string \<times> shape list) list"
  layer_widths :: "rat list"
  vert_lpp :: lpp
  horiz_lpp :: lpp

record hanan_graph =
  router :: router
  source_nodes :: "nat list"
  target_nodes :: "nat list"
  source :: shape
  target :: shape
  graph_blockages :: "shape list"
  nodes :: "nat list"
  store :: store
  next_id :: nat

text \<open>
  The code of the geometry library, of the design rules and of the node class is not part
  of \<open>hanan_graph.py\<close>. What \<open>hanan_graph.py\<close> calls there is a parameter of the model:
  one field per function called, named as in the source.
\<close>

record externals =
  get_zindex :: "router \<Rightarrow> lpp \<Rightarrow> int"
  on_segment :: "shape \<Rightarrow> vector \<Rightarrow> vector3d \<Rightarrow> vector \<Rightarrow> bool"
  overlaps :: "shape \<Rightarrow> shape \<Rightarrow> bool"
  hanan_probe :: "vector3d \<Rightarrow> vector3d \<Rightarrow> lpp \<Rightarrow> shape"
  inflated_pin :: "shape \<Rightarrow> rat option \<Rightarrow> rat \<Rightarrow> shape"
  bbox :: "shape \<Rightarrow> shape list \<Rightarrow> shape"
  width :: "shape \<Rightarrow> rat"
  height :: "shape \<Rightarrow> rat"
  uc :: "shape \<Rightarrow> vector"
  bc :: "shape \<Rightarrow> vector"
  lc :: "shape \<Rightarrow> vector"
  rc :: "shape \<Rightarrow> vector"
  shape_center :: "shape \<Rightarrow> vector"
  drc_grid :: rat
  distance :: "vector3d \<Rightarrow> vector3d \<Rightarrow> rat"
  get_edge_cost :: "store \<Rightarrow> nat \<Rightarrow> nat \<Rightarrow> rat"

datatype error = KeyError | IndexError | ZeroDivisionError

subsection \<open>Reading the store\<close>

text \<open>
  Every reference a Python object holds points to a live object. In the store model a
  reference that is not in the store has no neighbours.
\<close>

definition neighbors_of :: "store \<Rightarrow> nat \<Rightarrow> nat list" where
  "neighbors_of st i = (case map_of st i of None \<Rightarrow> [] | Some n \<Rightarrow> neighbors n)"

definition center_of :: "store \<Rightarrow> nat \<Rightarrow> vector3d" where
  "center_of st i = center (the (map_of st i))"

section \<open>Scores with infinity\<close>

text \<open>\<open>float("inf")\<close> is the start value of the heuristic's minimum; \<open>PInf\<close> stands for it.\<close>

datatype ext = Fin rat | PInf

instantiation ext :: linorder
begin

fun less_eq_ext :: "ext \<Rightarrow> ext \<Rightarrow> bool" where
  "less_eq_ext (Fin a) (Fin b) = (a \<le> b)"
| "less_eq_ext _ PInf = True"
| "less_eq_ext PInf (Fin b) = False"

definition less_ext :: "ext \<Rightarrow> ext \<Rightarrow> bool" where
  "less_ext a b = (a \<le> b \<and> \<not> b \<le> a)"

instance
proof
  fix a b c :: ext
  show "(a < b) = (a \<le> b \<and> \<not> b \<le> a)" by (simp add: less_ext_def)
  show "a \<le> a" by (cases a) simp_all
  show "a \<le> b \<Longrightarrow> b \<le> c \<Longrightarrow> a \<le> c" by (cases a; cases b; cases c) simp_all
  show "a \<le> b \<Longrightarrow> b \<le> a \<Longrightarrow> a = b" by (cases a; cases b) simp_all
  show "a \<le> b \<or> b \<le> a" by (cases a; cases b) auto
qed

end

fun ext_add :: "rat \<Rightarrow> ext \<Rightarrow> ext" where
  "ext_add a (Fin b) = Fin (a + b)"
| "ext_add a PInf = PInf"

lemma less_ext_simps [simp]:
  "(Fin a < Fin b) = (a < b)" "(Fin a < PInf) = True" "(PInf < e) = False"
  by (cases e; auto simp: less_ext_def)+

section \<open>The priority queue\<close>

text \<open>
  \<open>heapq\<close> keeps a binary heap in a list; \<open>heappop\<close> returns the least entry. An entry of the
  search is the tuple \<open>(f, node.id, node)\<close>; Python compares tuples lexicographically, and two
  entries with the same id hold the same node, so the node itself is never compared. The
  model keeps the entries \<open>(f, id)\<close> in a list and takes the least one out.
\<close>

definition heappush :: "'a list \<Rightarrow> 'a \<Rightarrow> 'a list" where
  "heappush q e = q @ [e]"

definition heappop :: "('a::linorder) list \<Rightarrow> 'a \<times> 'a list" where
  "heappop q = (Min (set q), remove1 (Min (set q)) q)"

section \<open>find_shortest_path\<close>

text \<open>The heuristic \<open>h\<close>: the least, over the target nodes, of the distance of the centers
  plus the difference of the layers; \<open>float("inf")\<close> when there is no target node.\<close>

definition h :: "externals \<Rightarrow> hanan_graph \<Rightarrow> nat \<Rightarrow> ext" where
  "h X G node =
     fold (\<lambda>t min_dist.
        let dist = Fin (distance X (center_of (store G) t) (center_of (store G) node)
                     + of_int \<bar>pz (center_of (store G) t) - pz (center_of (store G) node)\<bar>)
        in if dist < min_dist then dist else min_dist)
      (target_nodes G) PInf"

record astar =
  queue :: "(ext \<times> nat) list"
  close_set :: "nat set"
  came_from :: "nat \<rightharpoonup> nat"
  g_scores :: "nat \<rightharpoonup> rat"
  f_scores :: "nat \<rightharpoonup> ext"

definition astar_init :: astar where
  "astar_init = \<lparr>queue = [], close_set = {}, came_from = Map.empty,
                 g_scores = Map.empty, f_scores = Map.empty\<rparr>"

text \<open>One round of the loop over \<open>self.source_nodes\<close>.\<close>

definition seed_source :: "externals \<Rightarrow> hanan_graph \<Rightarrow> nat \<Rightarrow> astar \<Rightarrow> astar" where
  "seed_source X G node s =
     s\<lparr>g_scores := (g_scores s)(node \<mapsto> 0),
       f_scores := (f_scores s)(node \<mapsto> h X G node),
       queue := heappush (queue s) (h X G node, node)\<rparr>"

text \<open>The loop over \<open>current.neighbors\<close>. \<open>g_scores[current.id]\<close> is read in every round and
  raises \<open>KeyError\<close> when the key is missing.\<close>

fun update_neighbors ::
  "externals \<Rightarrow> hanan_graph \<Rightarrow> nat \<Rightarrow> nat list \<Rightarrow> astar \<Rightarrow> error + astar" where
  "update_neighbors X G current [] s = Inr s"
| "update_neighbors X G current (node # rest) s =
     (case g_scores s current of
        None \<Rightarrow> Inl KeyError
      | Some g_current \<Rightarrow>
          let tentative_score = get_edge_cost X (store G) current node + g_current in
          if (case g_scores s node of None \<Rightarrow> True | Some g_node \<Rightarrow> tentative_score < g_node)
          then update_neighbors X G current rest
                 (s\<lparr>came_from := (came_from s)(node \<mapsto> current),
                    g_scores := (g_scores s)(node \<mapsto> tentative_score),
                    f_scores := (f_scores s)(node \<mapsto> ext_add tentative_score (h X G node)),
                    queue := heappush (queue s) (ext_add tentative_score (h X G node), node)\<rparr>)
          else update_neighbors X G current rest s)"

text \<open>How the \<open>while\<close> loop ends: a target node was closed, the queue ran empty, or an
  exception was raised.\<close>

datatype loop_exit = Reached nat | Exhausted | Failed error

text \<open>One round of the \<open>while\<close> loop: \<open>Inl\<close> when the loop is left, \<open>Inr\<close> the state for the
  next round.\<close>

definition astar_step :: "externals \<Rightarrow> hanan_graph \<Rightarrow> astar \<Rightarrow> (loop_exit \<times> astar) + astar" where
  "astar_step X G s =
     (if queue s = [] then Inl (Exhausted, s)
      else
        let (entry, q') = heappop (queue s);
            current = snd entry;
            s1 = s\<lparr>queue := q'\<rparr>
        in if current \<in> close_set s1 then Inr s1
           else
             let s2 = s1\<lparr>close_set := insert current (close_set s1)\<rparr>
             in if current \<in> set (target_nodes G) then Inl (Reached current, s2)
                else (case update_neighbors X G current (neighbors_of (store G) current) s2 of
                        Inl e \<Rightarrow> Inl (Failed e, s2)
                      | Inr s3 \<Rightarrow> Inr s3))"


subsection \<open>The loop stops\<close>

text \<open>Every reference that the store's neighbour lists hold.\<close>

definition all_neighbors :: "store \<Rightarrow> nat set" where
  "all_neighbors st = (\<Union>n \<in> snd ` set st. set (neighbors n))"

lemma finite_all_neighbors: "finite (all_neighbors st)"
  by (simp add: all_neighbors_def)

lemma neighbors_of_subset: "set (neighbors_of st i) \<subseteq> all_neighbors st"
proof (cases "map_of st i")
  case None
  then show ?thesis by (simp add: neighbors_of_def)
next
  case (Some n)
  then have "(i, n) \<in> set st" by (rule map_of_SomeD)
  then have "n \<in> snd ` set st" by force
  with Some show ?thesis by (auto simp: neighbors_of_def all_neighbors_def)
qed

lemma update_neighbors_close_set:
  "update_neighbors X G c ns s = Inr s' \<Longrightarrow> close_set s' = close_set s"
  by (induction ns arbitrary: s) (auto simp: Let_def split: option.splits if_splits)

lemma update_neighbors_queue_ids:
  "update_neighbors X G c ns s = Inr s' \<Longrightarrow>
     snd ` set (queue s') \<subseteq> snd ` set (queue s) \<union> set ns"
proof (induction ns arbitrary: s)
  case Nil
  then show ?case by simp
next
  case (Cons n ns)
  from Cons.prems obtain gc where gc: "g_scores s c = Some gc"
    by (auto split: option.splits)
  let ?t = "get_edge_cost X (store G) c n + gc"
  let ?s1 = "s\<lparr>came_from := (came_from s)(n \<mapsto> c),
                g_scores := (g_scores s)(n \<mapsto> ?t),
                f_scores := (f_scores s)(n \<mapsto> ext_add ?t (h X G n)),
                queue := heappush (queue s) (ext_add ?t (h X G n), n)\<rparr>"
  show ?case
  proof (cases "case g_scores s n of None \<Rightarrow> True | Some g_node \<Rightarrow> ?t < g_node")
    case True
    with Cons.prems gc have "update_neighbors X G c ns ?s1 = Inr s'"
      by (simp add: Let_def)
    from Cons.IH [OF this] show ?thesis by (auto simp: heappush_def)
  next
    case False
    with Cons.prems gc have "update_neighbors X G c ns s = Inr s'"
      by (simp add: Let_def)
    from Cons.IH [OF this] show ?thesis by auto
  qed
qed

lemma heappop_queue:
  assumes "q \<noteq> []" and "heappop q = (e, q')"
  shows "e \<in> set q" and "set q' \<subseteq> set q" and "Suc (length q') = length q"
    and "\<forall>e' \<in> set q. e \<le> e'"
proof -
  from assms(1) have ne: "set q \<noteq> {}" by simp
  from assms(2) have e: "e = Min (set q)" and q': "q' = remove1 e q"
    by (auto simp: heappop_def)
  from ne show "e \<in> set q" unfolding e by (simp add: Min_in)
  then have "length q' = length q - 1" unfolding q' by (simp add: length_remove1)
  with assms(1) show "Suc (length q') = length q" by (cases q) simp_all
  show "set q' \<subseteq> set q" unfolding q' by (rule set_remove1_subset)
  show "\<forall>e' \<in> set q. e \<le> e'" unfolding e by simp
qed

text \<open>What one round does to the closed set and the queue: it skips an entry, or it
  closes a node that was queued and open.\<close>

lemma astar_step_Inr:
  assumes "astar_step X G s = Inr s'"
  shows "(close_set s' = close_set s \<and> snd ` set (queue s') \<subseteq> snd ` set (queue s)
            \<and> length (queue s') < length (queue s))
       \<or> (\<exists>c. c \<in> snd ` set (queue s) \<and> c \<notin> close_set s
            \<and> close_set s' = insert c (close_set s)
            \<and> snd ` set (queue s') \<subseteq> snd ` set (queue s) \<union> all_neighbors (store G))"
proof -
  from assms have ne: "queue s \<noteq> []" by (auto simp: astar_step_def split: if_splits)
  obtain e q' where pop: "heappop (queue s) = (e, q')" by (cases "heappop (queue s)")
  note hp = heappop_queue [OF ne pop]
  show ?thesis
  proof (cases "snd e \<in> close_set s")
    case True
    with assms ne pop have "s' = s\<lparr>queue := q'\<rparr>" by (simp add: astar_step_def)
    with hp show ?thesis by auto
  next
    case False
    let ?s2 = "s\<lparr>queue := q', close_set := insert (snd e) (close_set s)\<rparr>"
    from assms ne pop False
    have upd: "update_neighbors X G (snd e) (neighbors_of (store G) (snd e)) ?s2 = Inr s'"
      by (auto simp: astar_step_def Let_def split: if_splits sum.splits)
    from update_neighbors_close_set [OF upd]
    have cs: "close_set s' = insert (snd e) (close_set s)" by simp
    from hp(2) have a: "snd ` set q' \<subseteq> snd ` set (queue s)" by (rule image_mono)
    from update_neighbors_queue_ids [OF upd]
    have b: "snd ` set (queue s') \<subseteq> snd ` set q' \<union> set (neighbors_of (store G) (snd e))"
      by simp
    have "snd ` set (queue s') \<subseteq> snd ` set (queue s) \<union> all_neighbors (store G)"
      by (rule subset_trans [OF b]) (use a neighbors_of_subset [of "store G" "snd e"] in \<open>rule Un_mono\<close>)
    with cs False hp(1) show ?thesis by blast
  qed
qed

definition open_count :: "hanan_graph \<Rightarrow> astar \<Rightarrow> nat" where
  "open_count G s = card ((snd ` set (queue s) \<union> all_neighbors (store G)) - close_set s)"

lemma astar_step_measure:
  assumes "astar_step X G s = Inr s'"
  shows "open_count G s' < open_count G s
       \<or> (open_count G s' = open_count G s \<and> length (queue s') < length (queue s))"
proof -
  let ?A = "snd ` set (queue s) \<union> all_neighbors (store G)"
  let ?A' = "snd ` set (queue s') \<union> all_neighbors (store G)"
  have fin: "finite (?A - close_set s)" by (simp add: finite_all_neighbors)
  from astar_step_Inr [OF assms] show ?thesis
  proof
    assume a: "close_set s' = close_set s \<and> snd ` set (queue s') \<subseteq> snd ` set (queue s)
            \<and> length (queue s') < length (queue s)"
    then have "?A' - close_set s' \<subseteq> ?A - close_set s" by auto
    from card_mono [OF fin this] a show ?thesis
      unfolding open_count_def by linarith
  next
    assume "\<exists>c. c \<in> snd ` set (queue s) \<and> c \<notin> close_set s
            \<and> close_set s' = insert c (close_set s)
            \<and> snd ` set (queue s') \<subseteq> snd ` set (queue s) \<union> all_neighbors (store G)"
    then obtain c where c: "c \<in> snd ` set (queue s)" "c \<notin> close_set s"
      "close_set s' = insert c (close_set s)"
      "snd ` set (queue s') \<subseteq> snd ` set (queue s) \<union> all_neighbors (store G)" by blast
    then have "?A' - close_set s' \<subset> ?A - close_set s" by auto
    from psubset_card_mono [OF fin this] show ?thesis
      unfolding open_count_def by simp
  qed
qed

function astar_loop :: "externals \<Rightarrow> hanan_graph \<Rightarrow> astar \<Rightarrow> loop_exit \<times> astar" where
  "astar_loop X G s = (case astar_step X G s of Inl r \<Rightarrow> r | Inr s' \<Rightarrow> astar_loop X G s')"
  by pat_completeness auto
termination
proof (relation "inv_image (less_than <*lex*> less_than)
                   (\<lambda>(X, G, s). (open_count G s, length (queue s)))")
  show "wf (inv_image (less_than <*lex*> less_than)
             (\<lambda>(X, G, s). (open_count G s, length (queue s))))"
    by auto
next
  fix X G s s'
  assume "astar_step X G s = Inr s'"
  from astar_step_measure [OF this]
  show "((X, G, s'), (X, G, s)) \<in> inv_image (less_than <*lex*> less_than)
          (\<lambda>(X, G, s). (open_count G s, length (queue s)))"
    by auto
qed

declare astar_loop.simps [simp del]

text \<open>
  The path is collected from the closed target node along \<open>came_from\<close>, the target first.
  The walk stops at the first node without an entry in \<open>came_from\<close>; it never stops on a
  cycle, and then the result is \<open>None\<close>.
\<close>

partial_function (option) walk_back :: "(nat \<rightharpoonup> nat) \<Rightarrow> nat \<Rightarrow> nat list option" where
  "walk_back cf current =
     (case cf current of
        None \<Rightarrow> Some [current]
      | Some previous \<Rightarrow> Option.bind (walk_back cf previous) (\<lambda>path. Some (current # path)))"

text \<open>What a call of \<open>find_shortest_path\<close> does: it does not return, it raises, or it
  returns a path or \<open>None\<close>.\<close>

datatype outcome = NoReturn | Raise error | Return "nat list option"

definition find_shortest_path :: "externals \<Rightarrow> hanan_graph \<Rightarrow> outcome" where
  "find_shortest_path X G =
     (case astar_loop X G (fold (seed_source X G) (source_nodes G) astar_init) of
        (Reached current, s) \<Rightarrow>
          (case walk_back (came_from s) current of
             None \<Rightarrow> NoReturn
           | Some path \<Rightarrow> Return (Some path))
      | (Exhausted, s) \<Rightarrow> Return None
      | (Failed e, s) \<Rightarrow> Raise e)"

lemma walk_back_stop: "cf c = None \<Longrightarrow> walk_back cf c = Some [c]"
  by (subst walk_back.simps) simp

lemma walk_back_next:
  "cf c = Some p \<Longrightarrow> walk_back cf c = Option.bind (walk_back cf p) (\<lambda>path. Some (c # path))"
  by (subst walk_back.simps) simp

subsection \<open>Paths and reachability\<close>

text \<open>A node is reachable when a chain of neighbour links leads to it from a source node.\<close>

inductive reachable :: "hanan_graph \<Rightarrow> nat \<Rightarrow> bool" for G where
  from_source: "s \<in> set (source_nodes G) \<Longrightarrow> reachable G s"
| by_edge: "reachable G u \<Longrightarrow> v \<in> set (neighbors_of (store G) u) \<Longrightarrow> reachable G v"

text \<open>\<open>is_chain cf p\<close>: the list \<open>p\<close> follows the predecessor links \<open>cf\<close> from its first
  node to a node without predecessor.\<close>

fun is_chain :: "(nat \<rightharpoonup> nat) \<Rightarrow> nat list \<Rightarrow> bool" where
  "is_chain cf [] = False"
| "is_chain cf [c] = (cf c = None)"
| "is_chain cf (c # p # rest) = (cf c = Some p \<and> is_chain cf (p # rest))"

text \<open>\<open>path_ok st p\<close>: each node of \<open>p\<close> is a neighbour of the one before it.\<close>

fun path_ok :: "store \<Rightarrow> nat list \<Rightarrow> bool" where
  "path_ok st [] = False"
| "path_ok st [v] = True"
| "path_ok st (u # v # p) = (v \<in> set (neighbors_of st u) \<and> path_ok st (v # p))"

text \<open>The cost of a path is the sum of the costs of its edges; \<open>path_cost\<close> reads the list
  in the direction of travel, \<open>chain_cost\<close> against it.\<close>

fun path_cost :: "(nat \<Rightarrow> nat \<Rightarrow> rat) \<Rightarrow> nat list \<Rightarrow> rat" where
  "path_cost c (u # v # p) = c u v + path_cost c (v # p)"
| "path_cost c [u] = 0"
| "path_cost c [] = 0"

fun chain_cost :: "(nat \<Rightarrow> nat \<Rightarrow> rat) \<Rightarrow> nat list \<Rightarrow> rat" where
  "chain_cost c (v # u # p) = c u v + chain_cost c (u # p)"
| "chain_cost c [v] = 0"
| "chain_cost c [] = 0"

text \<open>A route leads from a source node to a target node.\<close>

definition route :: "hanan_graph \<Rightarrow> nat list \<Rightarrow> bool" where
  "route G p \<longleftrightarrow> path_ok (store G) p \<and> hd p \<in> set (source_nodes G)
                 \<and> last p \<in> set (target_nodes G)"

section \<open>The node class\<close>

text \<open>
  Modelled from the spec: the constructor of \<open>hanan_node\<close>, whose file is not among the
  sources. The spec: a node is "identified by a unique integer/sequence id (assigned at
  creation, monotonically increasing)" and holds a center and an adjacency, which is empty
  for a new node. The result is the reference to the new node and the graph with the node
  in its store.
\<close>

definition new_node :: "vector3d \<Rightarrow> hanan_graph \<Rightarrow> nat \<times> hanan_graph" where
  "new_node c G =
     (next_id G,
      G\<lparr>store := AList.update (next_id G) \<lparr>center = c, neighbors = []\<rparr> (store G),
        next_id := Suc (next_id G)\<rparr>)"

text \<open>
  Modelled from the spec: \<open>hanan_node.add_neighbor\<close>, not among the sources. The spec:
  a node holds "an adjacency set of neighbor node references", and "every edge is symmetric:
  if A is a neighbor of B, B is a neighbor of A". Connecting \<open>a\<close> and \<open>b\<close> puts each into
  the adjacency of the other, once.
\<close>

definition link :: "nat \<Rightarrow> nat \<Rightarrow> store \<Rightarrow> store" where
  "link a b st =
     AList.map_entry a
       (\<lambda>n. if b \<in> set (neighbors n) then n else n\<lparr>neighbors := neighbors n @ [b]\<rparr>) st"

definition add_neighbor :: "nat \<Rightarrow> nat \<Rightarrow> store \<Rightarrow> store" where
  "add_neighbor a b st = link b a (link a b st)"

text \<open>
  Modelled from the spec: \<open>hanan_node.remove_all_neighbors\<close>, not among the sources. The
  spec: "a node may be pruned, which clears and removes it from all neighbors' adjacency
  sets".
\<close>

definition unlink :: "nat \<Rightarrow> nat \<Rightarrow> store \<Rightarrow> store" where
  "unlink b a st = AList.map_entry b (\<lambda>n. n\<lparr>neighbors := removeAll a (neighbors n)\<rparr>) st"

definition remove_all_neighbors :: "nat \<Rightarrow> store \<Rightarrow> store" where
  "remove_all_neighbors a st =
     AList.map_entry a (\<lambda>n. n\<lparr>neighbors := []\<rparr>)
       (fold (\<lambda>b. unlink b a) (neighbors_of st a) st)"

section \<open>Building the graph\<close>

text \<open>Python's \<open>xs[i]\<close>: a negative index counts from the end, and an index outside the list
  raises \<open>IndexError\<close>.\<close>

definition py_index :: "'a list \<Rightarrow> int \<Rightarrow> error + 'a" where
  "py_index xs i =
     (let j = (if i < 0 then int (length xs) + i else i)
      in if 0 \<le> j \<and> j < int (length xs) then Inr (xs ! nat j) else Inl IndexError)"

text \<open>A loop whose body may raise: the first exception ends it.\<close>

fun fold_err :: "('a \<Rightarrow> 's \<Rightarrow> error + 's) \<Rightarrow> 'a list \<Rightarrow> 's \<Rightarrow> error + 's" where
  "fold_err f [] s = Inr s"
| "fold_err f (x # xs) s = (case f x s of Inl e \<Rightarrow> Inl e | Inr s' \<Rightarrow> fold_err f xs s')"

definition inside_shape :: "externals \<Rightarrow> hanan_graph \<Rightarrow> vector3d \<Rightarrow> shape \<Rightarrow> bool" where
  "inside_shape X G point shape =
     (if pz point \<noteq> get_zindex X (router G) (lpp shape) then False
      else let (ll, ur) = rect shape in on_segment X shape ll point ur)"

definition is_probe_blocked :: "externals \<Rightarrow> hanan_graph \<Rightarrow> vector3d \<Rightarrow> vector3d \<Rightarrow> bool" where
  "is_probe_blocked X G p1 p2 =
     (let probe_shape = hanan_probe X p1 p2
                          (if pz p1 \<noteq> 0 then vert_lpp (router G) else horiz_lpp (router G))
      in list_ex (\<lambda>blockage. overlaps X blockage probe_shape) (graph_blockages G))"

subsection \<open>get_blockages\<close>

text \<open>\<open>self.router.layer_widths[0]\<close> raises \<open>IndexError\<close> on an empty list. The dictionary
  \<open>self.router.pins\<close> is read in its insertion order and is modelled by an association list.
  \<open>deepcopy\<close> makes no difference in a model with values.\<close>

definition get_blockages :: "externals \<Rightarrow> hanan_graph \<Rightarrow> string \<Rightarrow> error + shape list" where
  "get_blockages X G pin_name =
     (case layer_widths (router G) of
        [] \<Rightarrow> Inl IndexError
      | w # ws \<Rightarrow>
          let offset = w / 2
          in Inr (fold (\<lambda>(name, pins) blockages.
                          if name = pin_name then blockages
                          else fold (\<lambda>pin blockages.
                                       blockages @ [inflated_pin X pin (Some offset) 1])
                                 pins blockages)
                    (pins (router G)) (blockages (router G))))"

subsection \<open>generate_cartesian_values\<close>

text \<open>The points a source or target shape gives. The division raises \<open>ZeroDivisionError\<close> for a
  shape of height zero.\<close>

definition shape_points :: "externals \<Rightarrow> shape \<Rightarrow> error + vector list" where
  "shape_points X shape =
     (if height X shape = 0 then Inl ZeroDivisionError
      else
        let aspect_ratio = width X shape / height X shape
        in if aspect_ratio \<le> 1 / 2 then Inr [uc X shape, bc X shape]
           else if aspect_ratio \<ge> 2 then Inr [lc X shape, rc X shape]
           else Inr [shape_center X shape])"

definition add_point :: "vector \<Rightarrow> rat set \<times> rat set \<Rightarrow> rat set \<times> rat set" where
  "add_point p v = (insert (vx p) (fst v), insert (vy p) (snd v))"

definition add_corners :: "rat \<Rightarrow> shape \<Rightarrow> rat set \<times> rat set \<Rightarrow> rat set \<times> rat set" where
  "add_corners offset blockage v =
     (let (ll, ur) = rect blockage
      in (fst v \<union> {vx ll - offset, vx ur + offset}, snd v \<union> {vy ll - offset, vy ur + offset}))"

definition generate_cartesian_values ::
  "externals \<Rightarrow> hanan_graph \<Rightarrow> error + (rat list \<times> rat list)" where
  "generate_cartesian_values X G =
     (case shape_points X (source G) of
        Inl e \<Rightarrow> Inl e
      | Inr source_points \<Rightarrow>
          (case shape_points X (target G) of
             Inl e \<Rightarrow> Inl e
           | Inr target_points \<Rightarrow>
               let v0 = fold add_point (source_points @ target_points) ({}, {});
                   offset = drc_grid X;
                   v1 = fold (add_corners offset) (graph_blockages G) v0
               in Inr (sorted_list_of_set (fst v1), sorted_list_of_set (snd v1))))"

subsection \<open>generate_hanan_nodes\<close>

text \<open>One round of the loops over \<open>belows\<close> and \<open>aboves\<close>: the new node is connected to the
  node at index \<open>i\<close> unless a blockage lies between them.\<close>

definition connect_round :: "externals \<Rightarrow> nat \<Rightarrow> int \<Rightarrow> hanan_graph \<Rightarrow> error + hanan_graph" where
  "connect_round X new i G =
     (case py_index (nodes G) i of
        Inl e \<Rightarrow> Inl e
      | Inr node \<Rightarrow>
          if \<not> is_probe_blocked X G (center_of (store G) new) (center_of (store G) node)
          then Inr (G\<lparr>store := add_neighbor new node (store G)\<rparr>)
          else Inr G)"

text \<open>One round of the loop that saves source and target nodes.\<close>

definition classify_round :: "externals \<Rightarrow> nat \<Rightarrow> hanan_graph \<Rightarrow> hanan_graph" where
  "classify_round X node G =
     (if inside_shape X G (center_of (store G) node) (source G)
      then G\<lparr>source_nodes := source_nodes G @ [node]\<rparr>
      else if inside_shape X G (center_of (store G) node) (target G)
      then G\<lparr>target_nodes := target_nodes G @ [node]\<rparr>
      else G)"

text \<open>The body of the two loops over \<open>x_values\<close> and \<open>y_values\<close>. \<open>count % y_len\<close> raises
  \<open>ZeroDivisionError\<close> when \<open>y_len\<close> is zero.\<close>

definition node_round ::
  "externals \<Rightarrow> rat list \<Rightarrow> rat \<Rightarrow> rat \<Rightarrow> hanan_graph \<Rightarrow> error + hanan_graph" where
  "node_round X y_values x y G =
     (let y_len = int (length y_values);
          left_offset = - (y_len * 2);
          (below_node, G1) = new_node \<lparr>px = x, py = y, pz = 0\<rparr> G;
          (above_node, G2) = new_node \<lparr>px = x, py = y, pz = 1\<rparr> G1;
          G3 = G2\<lparr>store := add_neighbor below_node above_node (store G2)\<rparr>;
          count = int (length (nodes G3)) div 2
      in if y_len = 0 then Inl ZeroDivisionError
         else
           let belows = (if count mod y_len \<noteq> 0 then [- 2] else [])
                        @ (if count \<ge> y_len then [left_offset] else []);
               aboves = (if count mod y_len \<noteq> 0 then [- 1] else [])
                        @ (if count \<ge> y_len then [left_offset + 1] else [])
           in (case fold_err (connect_round X below_node) belows G3 of
                 Inl e \<Rightarrow> Inl e
               | Inr G4 \<Rightarrow>
                   (case fold_err (connect_round X above_node) aboves G4 of
                      Inl e \<Rightarrow> Inl e
                    | Inr G5 \<Rightarrow>
                        let G6 = fold (classify_round X) [below_node, above_node] G5
                        in Inr (G6\<lparr>nodes := nodes G6 @ [below_node, above_node]\<rparr>))))"

definition generate_hanan_nodes ::
  "externals \<Rightarrow> hanan_graph \<Rightarrow> rat list \<Rightarrow> rat list \<Rightarrow> error + hanan_graph" where
  "generate_hanan_nodes X G x_values y_values =
     fold_err (\<lambda>x. fold_err (\<lambda>y. node_round X y_values x y) y_values) x_values
       (G\<lparr>nodes := []\<rparr>)"

subsection \<open>remove_blocked_nodes\<close>

text \<open>One round of the loop over the indices \<open>len(self.nodes) - 1, ..., 0\<close>. \<open>list.remove\<close>
  takes out the first element equal to the node.\<close>

definition prune_round :: "externals \<Rightarrow> nat \<Rightarrow> hanan_graph \<Rightarrow> error + hanan_graph" where
  "prune_round X i G =
     (case py_index (nodes G) (int i) of
        Inl e \<Rightarrow> Inl e
      | Inr node \<Rightarrow>
          let point = center_of (store G) node
          in if list_ex (\<lambda>blockage. inside_shape X G point blockage) (graph_blockages G)
             then Inr (G\<lparr>store := remove_all_neighbors node (store G),
                         nodes := remove1 node (nodes G)\<rparr>)
             else Inr G)"

definition remove_blocked_nodes :: "externals \<Rightarrow> hanan_graph \<Rightarrow> error + hanan_graph" where
  "remove_blocked_nodes X G = fold_err (prune_round X) (rev [0..<length (nodes G)]) G"

subsection \<open>create_graph\<close>

definition create_graph ::
  "externals \<Rightarrow> hanan_graph \<Rightarrow> shape \<Rightarrow> shape \<Rightarrow> error + hanan_graph" where
  "create_graph X G src tgt =
     (let G1 = G\<lparr>source := src, target := tgt\<rparr>;
          region = inflated_pin X (bbox X src [tgt]) None 1
      in (case get_blockages X G1 (name src) of
            Inl e \<Rightarrow> Inl e
          | Inr all_blockages \<Rightarrow>
              let G2 = G1\<lparr>graph_blockages :=
                            filter (\<lambda>blockage. overlaps X (region\<lparr>lpp := lpp blockage\<rparr>) blockage)
                              all_blockages\<rparr>
              in (case generate_cartesian_values X G2 of
                    Inl e \<Rightarrow> Inl e
                  | Inr (x_values, y_values) \<Rightarrow>
                      (case generate_hanan_nodes X G2 x_values y_values of
                         Inl e \<Rightarrow> Inl e
                       | Inr G3 \<Rightarrow> remove_blocked_nodes X G3))))"

text \<open>\<open>__init__\<close>: the graph of a router, before \<open>create_graph\<close>. The attributes that
  \<open>create_graph\<close> sets later start from the values given here; \<open>first_id\<close> is the value of the
  class counter \<open>hanan_node.next_id\<close>.\<close>

definition hanan_graph_init :: "router \<Rightarrow> nat \<Rightarrow> shape \<Rightarrow> hanan_graph" where
  "hanan_graph_init r first_id placeholder =
     \<lparr>router = r, source_nodes = [], target_nodes = [], source = placeholder,
      target = placeholder, graph_blockages = [], nodes = [], store = [],
      next_id = first_id\<rparr>"

section \<open>An instance of the external functions and example graphs\<close>

text \<open>
  A plain instance of the external functions, used to run the model on examples: rectangles
  with closed borders, the Manhattan distance in the plane, and an edge cost of the distance
  in the plane plus 2 for a change of layer.
\<close>

definition demo_manhattan :: "vector3d \<Rightarrow> vector3d \<Rightarrow> rat" where
  "demo_manhattan p q = \<bar>px p - px q\<bar> + \<bar>py p - py q\<bar>"

definition demo_inflate :: "rat \<Rightarrow> shape \<Rightarrow> shape" where
  "demo_inflate m s =
     s\<lparr>rect := (\<lparr>vx = vx (fst (rect s)) - m, vy = vy (fst (rect s)) - m\<rparr>,
                \<lparr>vx = vx (snd (rect s)) + m, vy = vy (snd (rect s)) + m\<rparr>)\<rparr>"

definition demo_cover :: "shape \<Rightarrow> shape \<Rightarrow> shape" where
  "demo_cover a b =
     a\<lparr>rect := (\<lparr>vx = min (vx (fst (rect a))) (vx (fst (rect b))),
                  vy = min (vy (fst (rect a))) (vy (fst (rect b)))\<rparr>,
                \<lparr>vx = max (vx (snd (rect a))) (vx (snd (rect b))),
                  vy = max (vy (snd (rect a))) (vy (snd (rect b)))\<rparr>)\<rparr>"

definition demo_externals :: externals where
  "demo_externals =
     \<lparr>get_zindex = (\<lambda>r l. if l = horiz_lpp r then 0 else 1),
      on_segment = (\<lambda>s p q r. min (vx p) (vx r) \<le> px q \<and> px q \<le> max (vx p) (vx r)
                             \<and> min (vy p) (vy r) \<le> py q \<and> py q \<le> max (vy p) (vy r)),
      overlaps = (\<lambda>a b. lpp a = lpp b
                    \<and> vx (fst (rect a)) \<le> vx (snd (rect b)) \<and> vx (fst (rect b)) \<le> vx (snd (rect a))
                    \<and> vy (fst (rect a)) \<le> vy (snd (rect b)) \<and> vy (fst (rect b)) \<le> vy (snd (rect a))),
      hanan_probe = (\<lambda>p q l. \<lparr>name = [], lpp = l,
                      rect = (\<lparr>vx = min (px p) (px q), vy = min (py p) (py q)\<rparr>,
                              \<lparr>vx = max (px p) (px q), vy = max (py p) (py q)\<rparr>)\<rparr>),
      inflated_pin = (\<lambda>s spacing multiple.
                       demo_inflate (case spacing of None \<Rightarrow> multiple | Some m \<Rightarrow> m) s),
      bbox = (\<lambda>s others. fold (\<lambda>b a. demo_cover a b) others s),
      width = (\<lambda>s. vx (snd (rect s)) - vx (fst (rect s))),
      height = (\<lambda>s. vy (snd (rect s)) - vy (fst (rect s))),
      uc = (\<lambda>s. \<lparr>vx = (vx (fst (rect s)) + vx (snd (rect s))) / 2, vy = vy (snd (rect s))\<rparr>),
      bc = (\<lambda>s. \<lparr>vx = (vx (fst (rect s)) + vx (snd (rect s))) / 2, vy = vy (fst (rect s))\<rparr>),
      lc = (\<lambda>s. \<lparr>vx = vx (fst (rect s)), vy = (vy (fst (rect s)) + vy (snd (rect s))) / 2\<rparr>),
      rc = (\<lambda>s. \<lparr>vx = vx (snd (rect s)), vy = (vy (fst (rect s)) + vy (snd (rect s))) / 2\<rparr>),
      shape_center = (\<lambda>s. \<lparr>vx = (vx (fst (rect s)) + vx (snd (rect s))) / 2,
                            vy = (vy (fst (rect s)) + vy (snd (rect s))) / 2\<rparr>),
      drc_grid = 1,
      distance = demo_manhattan,
      get_edge_cost = (\<lambda>st a b. demo_manhattan (center_of st a) (center_of st b)
                         + of_int \<bar>pz (center_of st a) - pz (center_of st b)\<bar> * 2)\<rparr>"

definition demo_router :: router where
  "demo_router = \<lparr>blockages = [], pins = [], layer_widths = [2],
                   vert_lpp = (''m2'', ''drawing''), horiz_lpp = (''m1'', ''drawing'')\<rparr>"

definition demo_pin :: "string \<Rightarrow> lpp \<Rightarrow> rat \<Rightarrow> rat \<Rightarrow> rat \<Rightarrow> rat \<Rightarrow> shape" where
  "demo_pin n l x0 y0 x1 y1 = \<lparr>name = n, lpp = l, rect = (\<lparr>vx = x0, vy = y0\<rparr>, \<lparr>vx = x1, vy = y1\<rparr>)\<rparr>"

definition demo_node :: "rat \<Rightarrow> rat \<Rightarrow> int \<Rightarrow> nat list \<Rightarrow> hanan_node" where
  "demo_node x y z ns = \<lparr>center = \<lparr>px = x, py = y, pz = z\<rparr>, neighbors = ns\<rparr>"

definition demo_graph_of :: "nat list \<Rightarrow> nat list \<Rightarrow> store \<Rightarrow> hanan_graph" where
  "demo_graph_of srcs tgts st =
     \<lparr>router = demo_router, source_nodes = srcs, target_nodes = tgts,
      source = demo_pin ''a'' (''m1'', ''drawing'') 0 0 0 0,
      target = demo_pin ''a'' (''m1'', ''drawing'') 1 0 1 0,
      graph_blockages = [], nodes = map fst st, store = st, next_id = length st\<rparr>"

text \<open>Two grid points on two layers: source node 0 at (0, 0) on layer 0, target node 3 at
  (1, 0) on layer 1.\<close>

definition demo_graph :: hanan_graph where
  "demo_graph = demo_graph_of [0] [3]
     [(0, demo_node 0 0 0 [1, 2]), (1, demo_node 0 0 1 [0, 3]),
      (2, demo_node 1 0 0 [3, 0]), (3, demo_node 1 0 1 [2, 1])]"

text \<open>The same points with the target node cut off from the rest.\<close>

definition demo_cut_graph :: hanan_graph where
  "demo_cut_graph = demo_graph_of [0] [3]
     [(0, demo_node 0 0 0 [1, 2]), (1, demo_node 0 0 1 [0]),
      (2, demo_node 1 0 0 [0]), (3, demo_node 1 0 1 [])]"

text \<open>A source node whose two neighbours are target nodes at the same distance; the
  neighbour with the larger id comes first in the neighbour list.\<close>

definition demo_tie_graph :: hanan_graph where
  "demo_tie_graph = demo_graph_of [0] [1, 2]
     [(0, demo_node 0 0 0 [2, 1]), (1, demo_node 1 0 0 [0]), (2, demo_node 0 1 0 [0])]"

text \<open>The same graph with the neighbour list of the source node in the other order.\<close>

definition demo_tie_swapped :: hanan_graph where
  "demo_tie_swapped = demo_graph_of [0] [1, 2]
     [(0, demo_node 0 0 0 [1, 2]), (1, demo_node 1 0 0 [0]), (2, demo_node 0 1 0 [0])]"

text \<open>The state of the search on \<open>demo_tie_graph\<close> after the first round.\<close>

definition demo_tie_state :: astar where
  "demo_tie_state =
     projr (astar_step demo_externals demo_tie_graph
              (fold (seed_source demo_externals demo_tie_graph) (source_nodes demo_tie_graph)
                 astar_init))"

lemmas demo_defs =
  demo_externals_def demo_manhattan_def demo_graph_of_def demo_node_def demo_router_def
  demo_pin_def

lemmas search_eval =
  find_shortest_path_def astar_loop.simps astar_step_def astar_init_def seed_source_def
  h_def heappush_def heappop_def center_of_def neighbors_of_def walk_back_stop walk_back_next
  Let_def
subsection \<open>Example layouts for the graph builder\<close>

definition demo_blocked_router :: router where
  "demo_blocked_router = demo_router\<lparr>blockages := [demo_pin ''blk'' (''m1'', ''drawing'') 0 0 1 1]\<rparr>"

definition demo_source :: shape where
  "demo_source = demo_pin ''a'' (''m1'', ''drawing'') 0 0 1 1"

definition demo_target :: shape where
  "demo_target = demo_pin ''a'' (''m1'', ''drawing'') 2 0 3 1"

definition demo_near_target :: shape where
  "demo_near_target = demo_pin ''a'' (''m1'', ''drawing'') (3 / 2) 0 (5 / 2) 1"

definition demo_fresh :: hanan_graph where
  "demo_fresh = hanan_graph_init demo_router 0 demo_source"

definition demo_blocked_fresh :: hanan_graph where
  "demo_blocked_fresh = hanan_graph_init demo_blocked_router 0 demo_source"

definition demo_built :: hanan_graph where
  "demo_built = projr (create_graph demo_externals demo_fresh demo_source demo_target)"

definition demo_blocked_built :: hanan_graph where
  "demo_blocked_built =
     projr (create_graph demo_externals demo_blocked_fresh demo_source demo_near_target)"

definition demo_pins_router :: router where
  "demo_pins_router =
     demo_router\<lparr>blockages := [demo_pin ''blk'' (''m1'', ''drawing'') 0 0 1 1],
                 pins := [(''a'', [demo_pin ''a'' (''m1'', ''drawing'') 0 0 1 1]),
                          (''b'', [demo_pin ''b'' (''m1'', ''drawing'') 5 5 6 6])]\<rparr>"

definition demo_pins_fresh :: hanan_graph where
  "demo_pins_fresh = hanan_graph_init demo_pins_router 0 demo_source"

definition demo_unbuilt :: hanan_graph where
  "demo_unbuilt =
     demo_blocked_fresh\<lparr>source := demo_source, target := demo_near_target,
                        graph_blockages := [demo_pin ''blk'' (''m1'', ''drawing'') 0 0 1 1]\<rparr>"

definition demo_generated :: hanan_graph where
  "demo_generated =
     projr (generate_hanan_nodes demo_externals demo_unbuilt [- 1, 1 / 2, 2] [- 1, 1 / 2, 2])"

definition demo_pruned :: hanan_graph where
  "demo_pruned = projr (remove_blocked_nodes demo_externals demo_generated)"


section \<open>Invariants of the search\<close>

text \<open>Bookkeeping that holds at every round, whatever the costs are: every queued node has a
  score, every scored node is a source node or has a predecessor, every predecessor link
  follows an edge, and every scored node can be reached from a source node.\<close>

definition search_inv :: "hanan_graph \<Rightarrow> astar \<Rightarrow> bool" where
  "search_inv G s \<longleftrightarrow>
     snd ` set (queue s) \<subseteq> dom (g_scores s) \<and>
     dom (g_scores s) \<subseteq> set (source_nodes G) \<union> dom (came_from s) \<and>
     (\<forall>v u. came_from s v = Some u \<longrightarrow>
        u \<in> dom (g_scores s) \<and> v \<in> set (neighbors_of (store G) u)) \<and>
     (\<forall>v \<in> dom (g_scores s). reachable G v)"

text \<open>The parts of the invariant behind optimality. \<open>W\<close> holds the edges out of the node
  that is being expanded and that the loop over its neighbours has not looked at yet.\<close>

definition source_path :: "hanan_graph \<Rightarrow> nat list \<Rightarrow> nat \<Rightarrow> bool" where
  "source_path G p v \<longleftrightarrow> path_ok (store G) p \<and> hd p \<in> set (source_nodes G) \<and> last p = v"

definition closed_optimal :: "externals \<Rightarrow> hanan_graph \<Rightarrow> astar \<Rightarrow> bool" where
  "closed_optimal X G s \<longleftrightarrow>
     (\<forall>v \<in> close_set s. \<exists>gv. g_scores s v = Some gv \<and>
        (\<forall>p. source_path G p v \<longrightarrow> gv \<le> path_cost (get_edge_cost X (store G)) p))"

definition scores_realised :: "externals \<Rightarrow> hanan_graph \<Rightarrow> astar \<Rightarrow> bool" where
  "scores_realised X G s \<longleftrightarrow>
     (\<forall>v gv. g_scores s v = Some gv \<longrightarrow>
        (\<exists>p. is_chain (came_from s) (v # p) \<and> set p \<subseteq> close_set s
            \<and> last (v # p) \<in> set (source_nodes G)
            \<and> chain_cost (get_edge_cost X (store G)) (v # p) = gv))"

definition open_queued :: "externals \<Rightarrow> hanan_graph \<Rightarrow> astar \<Rightarrow> bool" where
  "open_queued X G s \<longleftrightarrow>
     (\<forall>v gv. g_scores s v = Some gv \<longrightarrow> v \<notin> close_set s \<longrightarrow>
        (ext_add gv (h X G v), v) \<in> set (queue s))"

definition queue_sound :: "externals \<Rightarrow> hanan_graph \<Rightarrow> astar \<Rightarrow> bool" where
  "queue_sound X G s \<longleftrightarrow>
     (\<forall>k v. (k, v) \<in> set (queue s) \<longrightarrow>
        (\<exists>gv. g_scores s v = Some gv \<and> ext_add gv (h X G v) \<le> k))"

definition closed_relaxed :: "externals \<Rightarrow> hanan_graph \<Rightarrow> (nat \<times> nat) set \<Rightarrow> astar \<Rightarrow> bool" where
  "closed_relaxed X G W s \<longleftrightarrow>
     (\<forall>u \<in> close_set s. \<forall>v \<in> set (neighbors_of (store G) u).
        (u, v) \<in> W \<or>
        (\<exists>gu gv. g_scores s u = Some gu \<and> g_scores s v = Some gv
           \<and> gv \<le> get_edge_cost X (store G) u v + gu))"

definition sources_scored :: "hanan_graph \<Rightarrow> astar \<Rightarrow> bool" where
  "sources_scored G s \<longleftrightarrow> (\<forall>x \<in> set (source_nodes G). \<exists>gs. g_scores s x = Some gs \<and> gs \<le> 0)"

definition came_from_edges :: "hanan_graph \<Rightarrow> astar \<Rightarrow> bool" where
  "came_from_edges G s \<longleftrightarrow>
     (\<forall>v u. came_from s v = Some u \<longrightarrow> v \<in> set (neighbors_of (store G) u))"

definition opt_inv :: "externals \<Rightarrow> hanan_graph \<Rightarrow> (nat \<times> nat) set \<Rightarrow> astar \<Rightarrow> bool" where
  "opt_inv X G W s \<longleftrightarrow>
     closed_optimal X G s \<and> scores_realised X G s \<and> open_queued X G s \<and> queue_sound X G s
     \<and> closed_relaxed X G W s \<and> sources_scored G s \<and> came_from_edges G s
     \<and> close_set s \<inter> set (target_nodes G) = {}"

text \<open>The heuristic is consistent: it drops by at most the edge cost along every edge.\<close>

definition consistent :: "externals \<Rightarrow> hanan_graph \<Rightarrow> bool" where
  "consistent X G \<longleftrightarrow>
     (\<forall>u v. v \<in> set (neighbors_of (store G) u) \<longrightarrow>
        h X G u \<le> ext_add (get_edge_cost X (store G) u v) (h X G v))"

text \<open>What the search has found when it closes a target node.\<close>

definition found_optimal :: "externals \<Rightarrow> hanan_graph \<Rightarrow> astar \<Rightarrow> nat \<Rightarrow> bool" where
  "found_optimal X G s u \<longleftrightarrow>
     u \<in> set (target_nodes G) \<and> came_from_edges G s \<and>
     (\<exists>p. is_chain (came_from s) (u # p) \<and> last (u # p) \<in> set (source_nodes G) \<and>
        (\<forall>q. route G q \<longrightarrow>
           chain_cost (get_edge_cost X (store G)) (u # p) \<le> path_cost (get_edge_cost X (store G)) q))"

text \<open>The state after the loop over the source nodes.\<close>

definition seed_inv :: "externals \<Rightarrow> hanan_graph \<Rightarrow> astar \<Rightarrow> bool" where
  "seed_inv X G s \<longleftrightarrow>
     close_set s = {} \<and> came_from s = Map.empty \<and>
     (\<forall>v gv. g_scores s v = Some gv \<longrightarrow>
        gv = 0 \<and> v \<in> set (source_nodes G) \<and> (h X G v, v) \<in> set (queue s)) \<and>
     (\<forall>k v. (k, v) \<in> set (queue s) \<longrightarrow> g_scores s v = Some 0 \<and> k = h X G v)"

subsection \<open>States with the same entries\<close>

text \<open>Two states of the search that differ at most in the order of the queue.\<close>

definition same_entries :: "astar \<Rightarrow> astar \<Rightarrow> bool" where
  "same_entries s s' \<longleftrightarrow>
     mset (queue s) = mset (queue s') \<and> close_set s = close_set s'
     \<and> came_from s = came_from s' \<and> g_scores s = g_scores s' \<and> f_scores s = f_scores s'"

text \<open>The test of the loop over the neighbours of \<open>c\<close>, whose score is \<open>gc\<close>: node \<open>n\<close> has
  no score yet, or the edge from \<open>c\<close> gives it a smaller one.\<close>

definition improves :: "externals \<Rightarrow> hanan_graph \<Rightarrow> nat \<Rightarrow> rat \<Rightarrow> astar \<Rightarrow> nat \<Rightarrow> bool" where
  "improves X G c gc s n \<longleftrightarrow>
     (case g_scores s n of None \<Rightarrow> True
      | Some g_node \<Rightarrow> get_edge_cost X (store G) c n + gc < g_node)"

text \<open>Two results of \<open>update_neighbors\<close>, and two results of a round of the loop, agree: the
  same exception or exit on both sides, and states that hold the same entries.\<close>

definition same_result :: "error + astar \<Rightarrow> error + astar \<Rightarrow> bool" where
  "same_result a b \<longleftrightarrow>
     (case a of Inl e \<Rightarrow> b = Inl e
      | Inr t \<Rightarrow> (case b of Inl e \<Rightarrow> False | Inr t' \<Rightarrow> same_entries t t'))"

definition same_step :: "(loop_exit \<times> astar) + astar \<Rightarrow> (loop_exit \<times> astar) + astar \<Rightarrow> bool" where
  "same_step a b \<longleftrightarrow>
     (case a of
        Inl (r, t) \<Rightarrow> (case b of Inl (r', t') \<Rightarrow> r' = r \<and> same_entries t t' | Inr t' \<Rightarrow> False)
      | Inr t \<Rightarrow> (case b of Inl x \<Rightarrow> False | Inr t' \<Rightarrow> same_entries t t'))"

text \<open>The state after one round, whether the loop goes on or is left.\<close>

definition round_state :: "(loop_exit \<times> astar) + astar \<Rightarrow> astar" where
  "round_state a = (case a of Inl (r, t) \<Rightarrow> t | Inr t \<Rightarrow> t)"

section \<open>Invariants of the graph builder\<close>

definition edges_symmetric :: "store \<Rightarrow> bool" where
  "edges_symmetric st \<longleftrightarrow>
     (\<forall>a b. b \<in> set (neighbors_of st a) \<longleftrightarrow> a \<in> set (neighbors_of st b))"

text \<open>\<open>grows G G'\<close>: the two graphs differ by edges that \<open>G'\<close> has in addition.\<close>

definition grows :: "hanan_graph \<Rightarrow> hanan_graph \<Rightarrow> bool" where
  "grows G G' \<longleftrightarrow>
     nodes G' = nodes G \<and> next_id G' = next_id G \<and> router G' = router G
     \<and> source G' = source G \<and> target G' = target G
     \<and> graph_blockages G' = graph_blockages G
     \<and> source_nodes G' = source_nodes G \<and> target_nodes G' = target_nodes G
     \<and> dom (map_of (store G')) = dom (map_of (store G))
     \<and> (\<forall>i. center_of (store G') i = center_of (store G) i)
     \<and> (\<forall>i. set (neighbors_of (store G) i) \<subseteq> set (neighbors_of (store G') i))
     \<and> (edges_symmetric (store G) \<longrightarrow> edges_symmetric (store G'))"

text \<open>What one round of the loops over the coordinates does.\<close>

definition round_adds :: "rat \<Rightarrow> rat \<Rightarrow> hanan_graph \<Rightarrow> hanan_graph \<Rightarrow> bool" where
  "round_adds x y G G' \<longleftrightarrow>
     nodes G' = nodes G @ [next_id G, Suc (next_id G)]
     \<and> next_id G' = Suc (Suc (next_id G))
     \<and> router G' = router G \<and> source G' = source G \<and> target G' = target G
     \<and> graph_blockages G' = graph_blockages G
     \<and> dom (map_of (store G')) = dom (map_of (store G)) \<union> {next_id G, Suc (next_id G)}
     \<and> center_of (store G') (next_id G) = \<lparr>px = x, py = y, pz = 0\<rparr>
     \<and> center_of (store G') (Suc (next_id G)) = \<lparr>px = x, py = y, pz = 1\<rparr>
     \<and> (\<forall>i. i \<noteq> next_id G \<and> i \<noteq> Suc (next_id G) \<longrightarrow>
           center_of (store G') i = center_of (store G) i
           \<and> set (neighbors_of (store G) i) \<subseteq> set (neighbors_of (store G') i))
     \<and> Suc (next_id G) \<in> set (neighbors_of (store G') (next_id G))
     \<and> next_id G \<in> set (neighbors_of (store G') (Suc (next_id G)))
     \<and> (edges_symmetric (store G) \<and> (\<forall>i \<in> dom (map_of (store G)). i < next_id G)
          \<longrightarrow> edges_symmetric (store G'))"

text \<open>The graph after the rounds for the coordinate pairs \<open>seen\<close>, started from \<open>G0\<close>: the
  node list holds the new ids in order, two for each pair, the lower one on layer 0, and
  the two nodes of a pair are neighbours of each other.\<close>

definition grid_inv :: "hanan_graph \<Rightarrow> (rat \<times> rat) list \<Rightarrow> hanan_graph \<Rightarrow> bool" where
  "grid_inv G0 seen G \<longleftrightarrow>
     nodes G = [next_id G0 ..< next_id G]
     \<and> next_id G = next_id G0 + 2 * length seen
     \<and> dom (map_of (store G)) = dom (map_of (store G0)) \<union> {next_id G0 ..< next_id G}
     \<and> router G = router G0 \<and> source G = source G0 \<and> target G = target G0
     \<and> graph_blockages G = graph_blockages G0
     \<and> (\<forall>k < length seen.
           center_of (store G) (next_id G0 + 2 * k)
             = \<lparr>px = fst (seen ! k), py = snd (seen ! k), pz = 0\<rparr>
           \<and> center_of (store G) (Suc (next_id G0 + 2 * k))
             = \<lparr>px = fst (seen ! k), py = snd (seen ! k), pz = 1\<rparr>
           \<and> Suc (next_id G0 + 2 * k) \<in> set (neighbors_of (store G) (next_id G0 + 2 * k))
           \<and> next_id G0 + 2 * k \<in> set (neighbors_of (store G) (Suc (next_id G0 + 2 * k))))
     \<and> (edges_symmetric (store G0) \<and> (\<forall>i \<in> dom (map_of (store G0)). i < next_id G0)
          \<longrightarrow> edges_symmetric (store G))"

text \<open>A node is blocked when its center lies inside one of the collected blockages.\<close>

definition blocked :: "externals \<Rightarrow> hanan_graph \<Rightarrow> nat \<Rightarrow> bool" where
  "blocked X G n \<longleftrightarrow>
     list_ex (\<lambda>blockage. inside_shape X G (center_of (store G) n) blockage) (graph_blockages G)"

text \<open>The graph when the loop of \<open>remove_blocked_nodes\<close>, started from \<open>G0\<close>, has dealt with
  the indices from \<open>k\<close> on: the blocked nodes among them are gone from the node list, have
  no neighbours and are nobody's neighbour.\<close>

definition pruned :: "externals \<Rightarrow> hanan_graph \<Rightarrow> nat \<Rightarrow> hanan_graph \<Rightarrow> bool" where
  "pruned X G0 k G \<longleftrightarrow>
     nodes G = take k (nodes G0) @ filter (\<lambda>n. \<not> blocked X G0 n) (drop k (nodes G0))
     \<and> router G = router G0 \<and> source G = source G0 \<and> target G = target G0
     \<and> graph_blockages G = graph_blockages G0
     \<and> source_nodes G = source_nodes G0 \<and> target_nodes G = target_nodes G0
     \<and> next_id G = next_id G0
     \<and> dom (map_of (store G)) = dom (map_of (store G0))
     \<and> (\<forall>i. center_of (store G) i = center_of (store G0) i)
     \<and> (\<forall>i. set (neighbors_of (store G) i) =
             (if i \<in> set (drop k (nodes G0)) \<and> blocked X G0 i then {}
              else set (neighbors_of (store G0) i)
                     - {n \<in> set (drop k (nodes G0)). blocked X G0 n}))"

text \<open>Modelled from the spec: a shape "inflated by a fixed spacing margin" is the shape with
  its rectangle grown by the margin on every side.\<close>

definition inflated_by :: "rat \<Rightarrow> shape \<Rightarrow> shape" where
  "inflated_by m s =
     s\<lparr>rect := (\<lparr>vx = vx (fst (rect s)) - m, vy = vy (fst (rect s)) - m\<rparr>,
                \<lparr>vx = vx (snd (rect s)) + m, vy = vy (snd (rect s)) + m\<rparr>)\<rparr>"

text \<open>The pins of the nets other than the one being routed.\<close>

definition other_pins :: "router \<Rightarrow> string \<Rightarrow> shape list" where
  "other_pins r pin_name = concat (map snd (filter (\<lambda>(n, ps). n \<noteq> pin_name) (pins r)))"

text \<open>The blockage list in the words of the specification: every obstruction and every pin of
  another net, each inflated by half a routing-layer width plus one grid unit.\<close>

definition spec_blockages :: "externals \<Rightarrow> hanan_graph \<Rightarrow> string \<Rightarrow> shape list" where
  "spec_blockages X G pin_name =
     map (inflated_by (hd (layer_widths (router G)) / 2 + drc_grid X))
       (blockages (router G) @ other_pins (router G) pin_name)"

text \<open>The points of a source or target shape in the words of the specification.\<close>

definition spec_points :: "externals \<Rightarrow> shape \<Rightarrow> vector set" where
  "spec_points X s =
     (if width X s / height X s \<le> 1 / 2 then {uc X s, bc X s}
      else if width X s / height X s \<ge> 2 then {lc X s, rc X s}
      else {shape_center X s})"


section \<open>Properties of the search\<close>

lemma astar_step_empty: "queue s = [] \<Longrightarrow> astar_step X G s = Inl (Exhausted, s)"
  by (simp add: astar_step_def)

lemma astar_step_skip:
  "queue s \<noteq> [] \<Longrightarrow> heappop (queue s) = (e, q') \<Longrightarrow> snd e \<in> close_set s \<Longrightarrow>
     astar_step X G s = Inr (s\<lparr>queue := q'\<rparr>)"
  by (simp add: astar_step_def)

lemma astar_step_target:
  "queue s \<noteq> [] \<Longrightarrow> heappop (queue s) = (e, q') \<Longrightarrow> snd e \<notin> close_set s \<Longrightarrow>
   snd e \<in> set (target_nodes G) \<Longrightarrow>
     astar_step X G s = Inl (Reached (snd e), s\<lparr>queue := q', close_set := insert (snd e) (close_set s)\<rparr>)"
  by (simp add: astar_step_def Let_def)

lemma astar_step_expand:
  "queue s \<noteq> [] \<Longrightarrow> heappop (queue s) = (e, q') \<Longrightarrow> snd e \<notin> close_set s \<Longrightarrow>
   snd e \<notin> set (target_nodes G) \<Longrightarrow>
     astar_step X G s =
       (case update_neighbors X G (snd e) (neighbors_of (store G) (snd e))
               (s\<lparr>queue := q', close_set := insert (snd e) (close_set s)\<rparr>) of
          Inl er \<Rightarrow> Inl (Failed er, s\<lparr>queue := q', close_set := insert (snd e) (close_set s)\<rparr>)
        | Inr s3 \<Rightarrow> Inr s3)"
  by (simp add: astar_step_def Let_def)

lemma search_inv_relax:
  assumes inv: "search_inv G s" and c: "g_scores s c = Some gc"
    and n: "n \<in> set (neighbors_of (store G) c)"
  shows "search_inv G (s\<lparr>came_from := (came_from s)(n \<mapsto> c),
                         g_scores := (g_scores s)(n \<mapsto> t),
                         f_scores := ff,
                         queue := heappush (queue s) (k, n)\<rparr>)"
proof -
  from inv c have "reachable G c" by (auto simp: search_inv_def)
  from this n have "reachable G n" by (rule reachable.by_edge)
  with inv c n show ?thesis
    unfolding search_inv_def heappush_def by (auto split: if_splits)
qed

lemma update_neighbors_inv:
  assumes "search_inv G s" and "c \<in> dom (g_scores s)"
    and "set ns \<subseteq> set (neighbors_of (store G) c)"
  shows "\<exists>s'. update_neighbors X G c ns s = Inr s' \<and> search_inv G s'"
  using assms
proof (induction ns arbitrary: s)
  case Nil
  then show ?case by simp
next
  case (Cons n ns)
  from Cons.prems(2) obtain gc where gc: "g_scores s c = Some gc" by auto
  from Cons.prems(3) have n: "n \<in> set (neighbors_of (store G) c)"
    and ns: "set ns \<subseteq> set (neighbors_of (store G) c)" by auto
  let ?t = "get_edge_cost X (store G) c n + gc"
  let ?s1 = "s\<lparr>came_from := (came_from s)(n \<mapsto> c),
                g_scores := (g_scores s)(n \<mapsto> ?t),
                f_scores := (f_scores s)(n \<mapsto> ext_add ?t (h X G n)),
                queue := heappush (queue s) (ext_add ?t (h X G n), n)\<rparr>"
  show ?case
  proof (cases "case g_scores s n of None \<Rightarrow> True | Some g_node \<Rightarrow> ?t < g_node")
    case True
    have inv1: "search_inv G ?s1" by (rule search_inv_relax [OF Cons.prems(1) gc n])
    from gc have "c \<in> dom (g_scores ?s1)" by auto
    from Cons.IH [OF inv1 this ns] True gc show ?thesis by (simp add: Let_def)
  next
    case False
    from Cons.IH [OF Cons.prems(1,2) ns] False gc show ?thesis by (simp add: Let_def)
  qed
qed

lemma search_inv_queue: "search_inv G s \<Longrightarrow> set q' \<subseteq> set (queue s) \<Longrightarrow> search_inv G (s\<lparr>queue := q'\<rparr>)"
  unfolding search_inv_def by auto

lemma search_inv_close: "search_inv G s \<Longrightarrow> search_inv G (s\<lparr>close_set := C\<rparr>)"
  unfolding search_inv_def by auto

text \<open>What a round of the loop keeps, and how it can leave the loop.\<close>

lemma astar_step_inv:
  assumes inv: "search_inv G s"
  shows "(\<exists>s'. astar_step X G s = Inr s' \<and> search_inv G s')
       \<or> (\<exists>s'. astar_step X G s = Inl (Exhausted, s'))
       \<or> (\<exists>t s'. astar_step X G s = Inl (Reached t, s') \<and> search_inv G s'
             \<and> t \<in> set (target_nodes G) \<and> t \<in> dom (g_scores s'))"
proof (cases "queue s = []")
  case True
  then show ?thesis by (simp add: astar_step_empty)
next
  case ne: False
  obtain e q' where pop: "heappop (queue s) = (e, q')" by (cases "heappop (queue s)")
  note hp = heappop_queue [OF ne pop]
  let ?s1 = "s\<lparr>queue := q'\<rparr>"
  have inv1: "search_inv G ?s1" by (rule search_inv_queue [OF inv hp(2)])
  from inv hp(1) have cur: "snd e \<in> dom (g_scores s)" by (auto simp: search_inv_def)
  show ?thesis
  proof (cases "snd e \<in> close_set s")
    case True
    with ne pop have "astar_step X G s = Inr ?s1" by (simp add: astar_step_skip)
    with inv1 show ?thesis by simp
  next
    case unclosed: False
    let ?s2 = "?s1\<lparr>close_set := insert (snd e) (close_set ?s1)\<rparr>"
    have inv2: "search_inv G ?s2" by (rule search_inv_close [OF inv1])
    show ?thesis
    proof (cases "snd e \<in> set (target_nodes G)")
      case True
      with ne pop unclosed have "astar_step X G s = Inl (Reached (snd e), ?s2)"
        by (simp add: astar_step_target)
      with inv2 cur True show ?thesis by simp
    next
      case False
      from cur have "snd e \<in> dom (g_scores ?s2)" by simp
      from update_neighbors_inv [OF inv2 this subset_refl, of X]
      obtain s3 where s3: "update_neighbors X G (snd e) (neighbors_of (store G) (snd e)) ?s2 = Inr s3"
        and inv3: "search_inv G s3" by blast
      from ne pop unclosed False s3 have "astar_step X G s = Inr s3"
        by (simp add: astar_step_expand)
      with inv3 show ?thesis by simp
    qed
  qed
qed

lemma astar_loop_inv:
  "search_inv G s \<Longrightarrow> astar_loop X G s = (r, s') \<Longrightarrow>
     r = Exhausted \<or> (\<exists>t. r = Reached t \<and> search_inv G s'
                          \<and> t \<in> set (target_nodes G) \<and> t \<in> dom (g_scores s'))"
proof (induction X G s rule: astar_loop.induct)
  case (1 X G s)
  from astar_step_inv [OF "1.prems"(1), of X]
  consider s1 where "astar_step X G s = Inr s1" "search_inv G s1"
    | s1 where "astar_step X G s = Inl (Exhausted, s1)"
    | t s1 where "astar_step X G s = Inl (Reached t, s1)" "search_inv G s1"
        "t \<in> set (target_nodes G)" "t \<in> dom (g_scores s1)"
    by blast
  then show ?case
  proof cases
    case 1
    with "1.prems"(2) have "astar_loop X G s1 = (r, s')"
      by (simp add: astar_loop.simps [of X G s])
    from "1.IH" [OF 1(1) 1(2) this] show ?thesis .
  next
    case 2
    with "1.prems"(2) show ?thesis by (simp add: astar_loop.simps [of X G s])
  next
    case 3
    with "1.prems"(2) show ?thesis by (auto simp: astar_loop.simps [of X G s])
  qed
qed

lemma search_inv_seed:
  "search_inv G s \<Longrightarrow> set srcs \<subseteq> set (source_nodes G) \<Longrightarrow>
     search_inv G (fold (seed_source X G) srcs s)"
proof (induction srcs arbitrary: s)
  case Nil
  then show ?case by simp
next
  case (Cons a srcs)
  from Cons.prems have a: "a \<in> set (source_nodes G)" by simp
  then have "reachable G a" by (rule reachable.from_source)
  with Cons.prems(1) a have "search_inv G (seed_source X G a s)"
    unfolding search_inv_def seed_source_def heappush_def by auto
  from Cons.IH [OF this] Cons.prems(2) show ?case by simp
qed

lemma search_inv_init: "search_inv G astar_init"
  by (simp add: search_inv_def astar_init_def)

lemma search_inv_start: "search_inv G (fold (seed_source X G) (source_nodes G) astar_init)"
  by (rule search_inv_seed [OF search_inv_init subset_refl])

lemma walk_back_chain:
  assumes "walk_back cf c = Some p"
  shows "is_chain cf p \<and> hd p = c"
proof (rule walk_back.raw_induct [where P = "\<lambda>cf c p. is_chain cf p \<and> hd p = c", OF _ assms])
  fix f cf c p
  assume IH: "\<And>cf c p. f cf c = Some p \<Longrightarrow> is_chain cf p \<and> hd p = c"
    and eq: "(case cf c of None \<Rightarrow> Some [c]
              | Some previous \<Rightarrow> Option.bind (f cf previous) (\<lambda>path. Some (c # path))) = Some p"
  show "is_chain cf p \<and> hd p = c"
  proof (cases "cf c")
    case None
    with eq show ?thesis by auto
  next
    case (Some u)
    with eq obtain q where q: "f cf u = Some q" and p: "p = c # q"
      by (auto simp: bind_eq_Some_conv)
    from IH [OF q] have "is_chain cf q" "hd q = u" by simp_all
    with Some p show ?thesis by (cases q) auto
  qed
qed

lemma chain_walk_back: "is_chain cf (c # p) \<Longrightarrow> walk_back cf c = Some (c # p)"
proof (induction p arbitrary: c)
  case Nil
  then show ?case by (simp add: walk_back_stop)
next
  case (Cons u p)
  then have "cf c = Some u" "walk_back cf u = Some (u # p)" by simp_all
  then show ?case by (simp add: walk_back_next)
qed

lemma path_ok_snoc: "path_ok st (q @ [v]) = (q = [] \<or> (path_ok st q \<and> v \<in> set (neighbors_of st (last q))))"
  by (induction st q rule: path_ok.induct) auto

lemma chain_last:
  "is_chain cf p \<Longrightarrow> cf (last p) = None"
  by (induction cf p rule: is_chain.induct) auto

lemma chain_members:
  "is_chain cf p \<Longrightarrow> v \<in> set p \<Longrightarrow> v = hd p \<or> v \<in> ran cf"
  by (induction cf p rule: is_chain.induct) (auto simp: ran_def)

lemma chain_path_ok:
  "is_chain cf p \<Longrightarrow> \<forall>v u. cf v = Some u \<longrightarrow> v \<in> set (neighbors_of st u) \<Longrightarrow>
     path_ok st (rev p)"
proof (induction cf p rule: is_chain.induct)
  case (3 cf c p rest)
  then have a: "path_ok st (rev (p # rest))" by simp
  from 3 have b: "c \<in> set (neighbors_of st p)" by auto
  have "last (rev (p # rest)) = p" by (simp add: last_rev)
  with a b have "path_ok st (rev (p # rest) @ [c])" by (subst path_ok_snoc) simp
  then show ?case by simp
qed simp_all

lemma ext_add_mono: "a \<le> b \<Longrightarrow> x \<le> y \<Longrightarrow> ext_add a x \<le> ext_add b y"
  by (cases x; cases y) simp_all

lemma ext_add_assoc: "ext_add a (ext_add b x) = ext_add (a + b) x"
  by (cases x) simp_all

lemma ext_add_cancel: "ext_add a (Fin r) \<le> ext_add b (Fin r) \<Longrightarrow> a \<le> b"
  by simp

lemma path_cost_snoc:
  "q \<noteq> [] \<Longrightarrow> path_cost c (q @ [v]) = path_cost c q + c (last q) v"
  by (induction c q rule: path_cost.induct) auto

lemma path_cost_rev: "path_cost c (rev p) = chain_cost c p"
proof (induction c p rule: chain_cost.induct)
  case (1 c v u p)
  have "path_cost c (rev (u # p) @ [v]) = path_cost c (rev (u # p)) + c (last (rev (u # p))) v"
    by (rule path_cost_snoc) simp
  with 1 show ?case by (simp add: last_rev)
qed simp_all

lemma is_chain_upd: "n \<notin> set q \<Longrightarrow> is_chain (cf(n \<mapsto> x)) q = is_chain cf q"
  by (induction cf q rule: is_chain.induct) auto

lemma h_fold_finite:
  "\<exists>r. fold (\<lambda>t min_dist. let dist = Fin (d t) in if dist < min_dist then dist else min_dist) ts (Fin a) = Fin r"
  by (induction ts arbitrary: a) (auto simp: Let_def)

lemma h_finite: "target_nodes G \<noteq> [] \<Longrightarrow> \<exists>r. h X G v = Fin r"
proof -
  assume "target_nodes G \<noteq> []"
  then obtain t ts where ts: "target_nodes G = t # ts" by (cases "target_nodes G") auto
  show ?thesis unfolding h_def ts
    using h_fold_finite [of "\<lambda>t. distance X (center_of (store G) t) (center_of (store G) v)
                     + of_int \<bar>pz (center_of (store G) t) - pz (center_of (store G) v)\<bar>" ts]
    by (simp add: Let_def)
qed

lemma h_fold_le:
  "fold (\<lambda>t min_dist. let dist = Fin (d t) in if dist < min_dist then dist else min_dist) ts m \<le> m"
proof (induction ts arbitrary: m)
  case Nil
  show ?case by simp
next
  case (Cons t ts)
  have "fold (\<lambda>t min_dist. let dist = Fin (d t) in if dist < min_dist then dist else min_dist) ts
          (if Fin (d t) < m then Fin (d t) else m) \<le> (if Fin (d t) < m then Fin (d t) else m)"
    by (rule Cons.IH)
  also have "\<dots> \<le> m" by auto
  finally show ?case by (simp add: Let_def)
qed

lemma h_fold_mem:
  "t \<in> set ts \<Longrightarrow>
   fold (\<lambda>t min_dist. let dist = Fin (d t) in if dist < min_dist then dist else min_dist) ts m \<le> Fin (d t)"
proof (induction ts arbitrary: m)
  case Nil
  then show ?case by simp
next
  case (Cons a ts)
  let ?m' = "if Fin (d a) < m then Fin (d a) else m"
  show ?case
  proof (cases "t = a")
    case True
    have "fold (\<lambda>t min_dist. let dist = Fin (d t) in if dist < min_dist then dist else min_dist) ts ?m' \<le> ?m'"
      by (rule h_fold_le)
    also have "?m' \<le> Fin (d a)" by auto
    finally show ?thesis using True by (simp add: Let_def)
  next
    case False
    with Cons.prems have "t \<in> set ts" by simp
    from Cons.IH [OF this, of ?m'] show ?thesis by (simp add: Let_def)
  qed
qed

lemma h_fold_ge:
  "\<forall>t \<in> set ts. b \<le> Fin (d t) \<Longrightarrow> b \<le> m \<Longrightarrow>
   b \<le> fold (\<lambda>t min_dist. let dist = Fin (d t) in if dist < min_dist then dist else min_dist) ts m"
  by (induction ts arbitrary: m) (auto simp: Let_def)

lemma h_target_zero:
  assumes "\<forall>p q. 0 \<le> distance X p q" and "\<forall>p. distance X p p = 0"
    and "t \<in> set (target_nodes G)"
  shows "h X G t = Fin 0"
proof -
  let ?d = "\<lambda>t'. distance X (center_of (store G) t') (center_of (store G) t)
                     + of_int \<bar>pz (center_of (store G) t') - pz (center_of (store G) t)\<bar>"
  have "h X G t \<le> Fin (?d t)" unfolding h_def by (rule h_fold_mem [OF assms(3)])
  with assms(2) have le: "h X G t \<le> Fin 0" by simp
  have "\<forall>t' \<in> set (target_nodes G). Fin 0 \<le> Fin (?d t')" using assms(1) by simp
  then have "Fin 0 \<le> h X G t" unfolding h_def by (rule h_fold_ge) simp
  with le show ?thesis by simp
qed

lemma source_path_single: "x \<in> set (source_nodes G) \<Longrightarrow> source_path G [x] x"
  by (simp add: source_path_def)

lemma source_path_snoc:
  assumes "source_path G q u" and "n \<in> set (neighbors_of (store G) u)"
  shows "source_path G (q @ [n]) n"
    and "path_cost c (q @ [n]) = path_cost c q + c u n"
proof -
  from assms(1) have q: "q \<noteq> []" "path_ok (store G) q" "hd q \<in> set (source_nodes G)" "last q = u"
    by (auto simp: source_path_def)
  from q assms(2) have "path_ok (store G) (q @ [n])" by (simp add: path_ok_snoc)
  with q show "source_path G (q @ [n]) n" by (simp add: source_path_def)
  from q show "path_cost c (q @ [n]) = path_cost c q + c u n" by (simp add: path_cost_snoc)
qed

lemma source_path_unsnoc:
  assumes "source_path G (q @ [n]) n" and "q \<noteq> []"
  shows "source_path G q (last q)" and "n \<in> set (neighbors_of (store G) (last q))"
  using assms by (auto simp: source_path_def path_ok_snoc)

lemma chain_source_path:
  assumes "came_from_edges G s" and "is_chain (came_from s) (v # p)"
    and "last (v # p) \<in> set (source_nodes G)"
  shows "source_path G (rev (v # p)) v"
    and "path_cost c (rev (v # p)) = chain_cost c (v # p)"
proof -
  from assms(1) have "\<forall>a b. came_from s a = Some b \<longrightarrow> a \<in> set (neighbors_of (store G) b)"
    by (simp add: came_from_edges_def)
  from chain_path_ok [OF assms(2) this] have "path_ok (store G) (rev (v # p))" .
  moreover have "hd (rev (v # p)) = last (v # p)" by (rule hd_rev)
  moreover have "last (rev (v # p)) = v" by (simp add: last_rev)
  ultimately show "source_path G (rev (v # p)) v" using assms(3) by (simp add: source_path_def)
  show "path_cost c (rev (v # p)) = chain_cost c (v # p)" by (rule path_cost_rev)
qed

text \<open>On every path from a source node to an open node there is an open node whose queue key
  is at most the cost of the path plus the heuristic at its end.\<close>

lemma frontier:
  assumes co: "closed_optimal X G s" and cr: "closed_relaxed X G {} s"
    and ss: "sources_scored G s" and cons: "consistent X G"
  shows "source_path G P t \<Longrightarrow> t \<notin> close_set s \<Longrightarrow>
     \<exists>y gy. y \<notin> close_set s \<and> g_scores s y = Some gy
        \<and> ext_add gy (h X G y) \<le> ext_add (path_cost (get_edge_cost X (store G)) P) (h X G t)"
proof (induction P arbitrary: t rule: rev_induct)
  case Nil
  then show ?case by (simp add: source_path_def)
next
  case (snoc n P)
  let ?c = "get_edge_cost X (store G)"
  from snoc.prems(1) have n: "n = t" by (simp add: source_path_def)
  show ?case
  proof (cases "P = []")
    case True
    with snoc.prems(1) have "t \<in> set (source_nodes G)" by (simp add: source_path_def n)
    with ss obtain gs where gs: "g_scores s t = Some gs" "gs \<le> 0"
      by (auto simp: sources_scored_def)
    from gs(2) have "ext_add gs (h X G t) \<le> ext_add 0 (h X G t)" by (rule ext_add_mono) simp
    with True gs snoc.prems(2) show ?thesis by (auto simp: n)
  next
    case False
    let ?x = "last P"
    from snoc.prems(1) False have sp: "source_path G P ?x"
      and e: "t \<in> set (neighbors_of (store G) ?x)"
      using source_path_unsnoc [of G P n] by (simp_all add: n)
    from False have cost: "path_cost ?c (P @ [n]) = path_cost ?c P + ?c ?x t"
      by (simp add: path_cost_snoc n)
    show ?thesis
    proof (cases "?x \<in> close_set s")
      case True
      with co obtain gx where gx: "g_scores s ?x = Some gx"
        and opt: "\<forall>p. source_path G p ?x \<longrightarrow> gx \<le> path_cost ?c p"
        by (auto simp: closed_optimal_def)
      from opt sp have "gx \<le> path_cost ?c P" by blast
      moreover from cr True e gx obtain gt where gt: "g_scores s t = Some gt" "gt \<le> ?c ?x t + gx"
        by (fastforce simp: closed_relaxed_def)
      ultimately have "gt \<le> path_cost ?c (P @ [n])" using cost by simp
      then have "ext_add gt (h X G t) \<le> ext_add (path_cost ?c (P @ [n])) (h X G t)"
        by (rule ext_add_mono) simp
      with gt(1) snoc.prems(2) show ?thesis by blast
    next
      case False
      from snoc.IH [OF sp False] obtain y gy where y: "y \<notin> close_set s" "g_scores s y = Some gy"
        "ext_add gy (h X G y) \<le> ext_add (path_cost ?c P) (h X G ?x)" by blast
      from cons e have "h X G ?x \<le> ext_add (?c ?x t) (h X G t)" by (simp add: consistent_def)
      then have "ext_add (path_cost ?c P) (h X G ?x)
                   \<le> ext_add (path_cost ?c P) (ext_add (?c ?x t) (h X G t))"
        by (intro ext_add_mono order_refl)
      also have "\<dots> = ext_add (path_cost ?c (P @ [n])) (h X G t)"
        by (simp add: ext_add_assoc cost)
      finally have "ext_add gy (h X G y) \<le> ext_add (path_cost ?c (P @ [n])) (h X G t)"
        using y(3) by (rule order_trans [rotated])
      with y(1,2) show ?thesis by blast
    qed
  qed
qed

text \<open>The key of the popped entry bounds the cost of every path from a source node to an
  open node.\<close>

lemma pop_bound:
  assumes inv: "opt_inv X G {} s" and cons: "consistent X G"
    and ne: "queue s \<noteq> []" and pop: "heappop (queue s) = (e, q')"
    and sp: "source_path G P t" and t: "t \<notin> close_set s"
  shows "\<exists>gu. g_scores s (snd e) = Some gu
           \<and> ext_add gu (h X G (snd e)) \<le> ext_add (path_cost (get_edge_cost X (store G)) P) (h X G t)"
proof -
  note hp = heappop_queue [OF ne pop]
  from inv have co: "closed_optimal X G s" and cr: "closed_relaxed X G {} s"
    and ss: "sources_scored G s" and oq: "open_queued X G s" and qs: "queue_sound X G s"
    by (simp_all add: opt_inv_def)
  from frontier [OF co cr ss cons sp t] obtain y gy where y: "y \<notin> close_set s"
    "g_scores s y = Some gy"
    "ext_add gy (h X G y) \<le> ext_add (path_cost (get_edge_cost X (store G)) P) (h X G t)"
    by blast
  from oq y(1,2) have "(ext_add gy (h X G y), y) \<in> set (queue s)" by (simp add: open_queued_def)
  with hp(4) have "e \<le> (ext_add gy (h X G y), y)" by blast
  then have k: "fst e \<le> ext_add gy (h X G y)" by (cases e) (auto simp: less_eq_prod_def)
  from hp(1) have "(fst e, snd e) \<in> set (queue s)" by simp
  with qs obtain gu where gu: "g_scores s (snd e) = Some gu" "ext_add gu (h X G (snd e)) \<le> fst e"
    unfolding queue_sound_def by blast
  from gu(2) k y(3) have "ext_add gu (h X G (snd e))
      \<le> ext_add (path_cost (get_edge_cost X (store G)) P) (h X G t)" by simp
  with gu(1) show ?thesis by blast
qed

lemma opt_inv_mono: "opt_inv X G W s \<Longrightarrow> W \<subseteq> W' \<Longrightarrow> opt_inv X G W' s"
  unfolding opt_inv_def closed_relaxed_def by blast

text \<open>The tentative score of a neighbour of a closed node is the cost of a path from a
  source node.\<close>

lemma tentative_is_path_cost:
  assumes inv: "opt_inv X G W s" and gu: "g_scores s u = Some gu"
    and n: "n \<in> set (neighbors_of (store G) u)"
  shows "\<exists>p. source_path G p n \<and> path_cost (get_edge_cost X (store G)) p
              = get_edge_cost X (store G) u n + gu"
proof -
  let ?c = "get_edge_cost X (store G)"
  from inv have sr: "scores_realised X G s" and ce: "came_from_edges G s"
    by (simp_all add: opt_inv_def)
  from sr gu obtain p where p: "is_chain (came_from s) (u # p)"
    "last (u # p) \<in> set (source_nodes G)" "chain_cost ?c (u # p) = gu"
    unfolding scores_realised_def by blast
  from chain_source_path [OF ce p(1,2)] have sp: "source_path G (rev (u # p)) u"
    and pc: "path_cost ?c (rev (u # p)) = chain_cost ?c (u # p)" by simp_all
  from source_path_snoc [OF sp n] pc p(3)
  have "source_path G (rev (u # p) @ [n]) n"
    and "path_cost ?c (rev (u # p) @ [n]) = ?c u n + gu" by simp_all
  then show ?thesis by blast
qed

lemma closed_not_improved:
  assumes inv: "opt_inv X G W s" and gu: "g_scores s u = Some gu"
    and n: "n \<in> set (neighbors_of (store G) u)" and nc: "n \<in> close_set s"
  shows "\<exists>gn. g_scores s n = Some gn \<and> gn \<le> get_edge_cost X (store G) u n + gu"
proof -
  from inv nc obtain gn where gn: "g_scores s n = Some gn"
    and opt: "\<forall>p. source_path G p n \<longrightarrow> gn \<le> path_cost (get_edge_cost X (store G)) p"
    by (auto simp: opt_inv_def closed_optimal_def)
  from tentative_is_path_cost [OF inv gu n] opt have "gn \<le> get_edge_cost X (store G) u n + gu"
    by auto
  with gn show ?thesis by blast
qed

lemma relax_update:
  assumes inv: "opt_inv X G W s" and u: "u \<in> close_set s" and gu: "g_scores s u = Some gu"
    and n: "n \<in> set (neighbors_of (store G) u)"
    and upd: "case g_scores s n of None \<Rightarrow> True
              | Some gn \<Rightarrow> get_edge_cost X (store G) u n + gu < gn"
  shows "opt_inv X G (W - {(u, n)})
           (s\<lparr>came_from := (came_from s)(n \<mapsto> u),
              g_scores := (g_scores s)(n \<mapsto> get_edge_cost X (store G) u n + gu),
              f_scores := ff,
              queue := heappush (queue s)
                         (ext_add (get_edge_cost X (store G) u n + gu) (h X G n), n)\<rparr>)"
    and "n \<noteq> u"
proof -
  let ?c = "get_edge_cost X (store G)"
  let ?t = "?c u n + gu"
  define s' where "s' = s\<lparr>came_from := (came_from s)(n \<mapsto> u),
              g_scores := (g_scores s)(n \<mapsto> ?t), f_scores := ff,
              queue := heappush (queue s) (ext_add ?t (h X G n), n)\<rparr>"
  have s'_simps: "close_set s' = close_set s" "came_from s' = (came_from s)(n \<mapsto> u)"
    "g_scores s' = (g_scores s)(n \<mapsto> ?t)" "set (queue s') = insert (ext_add ?t (h X G n), n) (set (queue s))"
    by (simp_all add: s'_def heappush_def)
  from inv have co: "closed_optimal X G s" and sr: "scores_realised X G s"
    and oq: "open_queued X G s" and qs: "queue_sound X G s" and cr: "closed_relaxed X G W s"
    and ss: "sources_scored G s" and ce: "came_from_edges G s"
    and ct: "close_set s \<inter> set (target_nodes G) = {}"
    by (simp_all add: opt_inv_def)
  have nc: "n \<notin> close_set s"
  proof
    assume "n \<in> close_set s"
    from closed_not_improved [OF inv gu n this] upd show False by auto
  qed
  with u show nu: "n \<noteq> u" by auto
  have 1: "closed_optimal X G s'"
    unfolding closed_optimal_def s'_simps using co nc by (auto simp: closed_optimal_def)
  have 2: "scores_realised X G s'"
    unfolding scores_realised_def
  proof (intro allI impI)
    fix v gv assume gv: "g_scores s' v = Some gv"
    show "\<exists>p. is_chain (came_from s') (v # p) \<and> set p \<subseteq> close_set s'
            \<and> last (v # p) \<in> set (source_nodes G) \<and> chain_cost ?c (v # p) = gv"
    proof (cases "v = n")
      case True
      with gv have gvt: "gv = ?t" by (simp add: s'_simps)
      from sr gu obtain p where p: "is_chain (came_from s) (u # p)" "set p \<subseteq> close_set s"
        "last (u # p) \<in> set (source_nodes G)" "chain_cost ?c (u # p) = gu"
        unfolding scores_realised_def by blast
      from p(2) u nc have "n \<notin> set (u # p)" by auto
      from is_chain_upd [OF this, of "came_from s" u] p(1)
      have "is_chain (came_from s') (u # p)" unfolding s'_simps by blast
      then have "is_chain (came_from s') (n # u # p)" by (simp add: s'_simps)
      moreover from p(2) u have "set (u # p) \<subseteq> close_set s'" by (simp add: s'_simps)
      moreover from p(3) have "last (n # u # p) \<in> set (source_nodes G)" by simp
      moreover from p(4) have "chain_cost ?c (n # u # p) = gv" by (simp add: gvt)
      ultimately show ?thesis unfolding True by blast
    next
      case False
      with gv have "g_scores s v = Some gv" by (simp add: s'_simps)
      with sr obtain p where p: "is_chain (came_from s) (v # p)" "set p \<subseteq> close_set s"
        "last (v # p) \<in> set (source_nodes G)" "chain_cost ?c (v # p) = gv"
        unfolding scores_realised_def by blast
      from p(2) nc False have "n \<notin> set (v # p)" by auto
      from is_chain_upd [OF this, of "came_from s" u] p(1)
      have "is_chain (came_from s') (v # p)" unfolding s'_simps by blast
      moreover from p(2) have "set p \<subseteq> close_set s'" by (simp add: s'_simps)
      ultimately show ?thesis using p(3,4) by blast
    qed
  qed
  have 3: "open_queued X G s'"
    unfolding open_queued_def s'_simps using oq by (auto simp: open_queued_def)
  have 4: "queue_sound X G s'"
    unfolding queue_sound_def
  proof (intro allI impI)
    fix k v assume kv: "(k, v) \<in> set (queue s')"
    show "\<exists>gv. g_scores s' v = Some gv \<and> ext_add gv (h X G v) \<le> k"
    proof (cases "(k, v) = (ext_add ?t (h X G n), n)")
      case True
      then show ?thesis by (simp add: s'_simps)
    next
      case False
      with kv have "(k, v) \<in> set (queue s)" by (auto simp: s'_simps)
      with qs obtain gv where gv: "g_scores s v = Some gv" "ext_add gv (h X G v) \<le> k"
        unfolding queue_sound_def by blast
      show ?thesis
      proof (cases "v = n")
        case True
        with gv(1) upd have "?t \<le> gv" by simp
        then have "ext_add ?t (h X G n) \<le> ext_add gv (h X G n)" by (rule ext_add_mono) simp
        with gv(2) True show ?thesis by (auto simp: s'_simps)
      next
        case False
        with gv show ?thesis by (simp add: s'_simps)
      qed
    qed
  qed
  have 5: "closed_relaxed X G (W - {(u, n)}) s'"
    unfolding closed_relaxed_def
  proof (intro ballI)
    fix a b assume a: "a \<in> close_set s'" and b: "b \<in> set (neighbors_of (store G) a)"
    from a nc have an: "a \<noteq> n" by (auto simp: s'_simps)
    show "(a, b) \<in> W - {(u, n)} \<or>
          (\<exists>ga gb. g_scores s' a = Some ga \<and> g_scores s' b = Some gb \<and> gb \<le> ?c a b + ga)"
    proof (cases "(a, b) = (u, n)")
      case True
      with gu nu show ?thesis by (simp add: s'_simps)
    next
      case False
      show ?thesis
      proof (cases "(a, b) \<in> W")
        case True
        with False show ?thesis by simp
      next
        case notW: False
        with cr a b obtain ga gb where g: "g_scores s a = Some ga" "g_scores s b = Some gb"
          "gb \<le> ?c a b + ga"
          unfolding closed_relaxed_def s'_simps by blast
        show ?thesis
        proof (cases "b = n")
          case True
          from a have "a \<in> close_set s" by (simp add: s'_simps)
          from g(2) upd True have "?t < gb" by simp
          with g(1,3) an True show ?thesis by (auto simp: s'_simps)
        next
          case False
          with g an show ?thesis by (auto simp: s'_simps)
        qed
      qed
    qed
  qed
  have 6: "sources_scored G s'"
    unfolding sources_scored_def
  proof
    fix x assume "x \<in> set (source_nodes G)"
    with ss obtain gs where gs: "g_scores s x = Some gs" "gs \<le> 0"
      by (auto simp: sources_scored_def)
    show "\<exists>gs. g_scores s' x = Some gs \<and> gs \<le> 0"
    proof (cases "x = n")
      case True
      with gs upd have "?t \<le> 0" by simp
      with True show ?thesis by (simp add: s'_simps)
    next
      case False
      with gs show ?thesis by (simp add: s'_simps)
    qed
  qed
  have 7: "came_from_edges G s'"
    unfolding came_from_edges_def s'_simps using ce n by (auto simp: came_from_edges_def)
  from 1 2 3 4 5 6 7 ct have "opt_inv X G (W - {(u, n)}) s'"
    by (simp add: opt_inv_def s'_simps)
  then show "opt_inv X G (W - {(u, n)})
           (s\<lparr>came_from := (came_from s)(n \<mapsto> u),
              g_scores := (g_scores s)(n \<mapsto> get_edge_cost X (store G) u n + gu),
              f_scores := ff,
              queue := heappush (queue s)
                         (ext_add (get_edge_cost X (store G) u n + gu) (h X G n), n)\<rparr>)"
    by (simp add: s'_def)
qed

lemma relax_keep:
  assumes inv: "opt_inv X G W s" and u: "u \<in> close_set s" and gu: "g_scores s u = Some gu"
    and gn: "g_scores s n = Some gn" and keep: "\<not> get_edge_cost X (store G) u n + gu < gn"
  shows "opt_inv X G (W - {(u, n)}) s"
proof -
  from inv have cr: "closed_relaxed X G W s" by (simp add: opt_inv_def)
  have "closed_relaxed X G (W - {(u, n)}) s"
    unfolding closed_relaxed_def
  proof (intro ballI)
    fix a b assume a: "a \<in> close_set s" and b: "b \<in> set (neighbors_of (store G) a)"
    show "(a, b) \<in> W - {(u, n)} \<or>
          (\<exists>ga gb. g_scores s a = Some ga \<and> g_scores s b = Some gb
              \<and> gb \<le> get_edge_cost X (store G) a b + ga)"
    proof (cases "(a, b) = (u, n)")
      case True
      with gu gn keep show ?thesis by auto
    next
      case False
      with cr a b show ?thesis unfolding closed_relaxed_def by blast
    qed
  qed
  with inv show ?thesis by (simp add: opt_inv_def)
qed

lemma update_neighbors_opt:
  assumes "opt_inv X G ({u} \<times> set ns) s" and "u \<in> close_set s" and "g_scores s u = Some gu"
    and "set ns \<subseteq> set (neighbors_of (store G) u)"
  shows "\<exists>s'. update_neighbors X G u ns s = Inr s' \<and> opt_inv X G {} s'"
  using assms
proof (induction ns arbitrary: s)
  case Nil
  then show ?case by simp
next
  case (Cons n ns)
  let ?t = "get_edge_cost X (store G) u n + gu"
  let ?s1 = "s\<lparr>came_from := (came_from s)(n \<mapsto> u),
                g_scores := (g_scores s)(n \<mapsto> ?t),
                f_scores := (f_scores s)(n \<mapsto> ext_add ?t (h X G n)),
                queue := heappush (queue s) (ext_add ?t (h X G n), n)\<rparr>"
  from Cons.prems(4) have n: "n \<in> set (neighbors_of (store G) u)"
    and ns: "set ns \<subseteq> set (neighbors_of (store G) u)" by auto
  have sub: "({u} \<times> set (n # ns)) - {(u, n)} \<subseteq> {u} \<times> set ns" by auto
  show ?case
  proof (cases "case g_scores s n of None \<Rightarrow> True | Some gn \<Rightarrow> ?t < gn")
    case True
    from relax_update [OF Cons.prems(1,2,3) n True]
    have inv1: "opt_inv X G (({u} \<times> set (n # ns)) - {(u, n)}) ?s1" and nu: "n \<noteq> u" by blast+
    from opt_inv_mono [OF inv1 sub] have inv1': "opt_inv X G ({u} \<times> set ns) ?s1" .
    from Cons.prems(2) have u1: "u \<in> close_set ?s1" by simp
    from Cons.prems(3) nu have g1: "g_scores ?s1 u = Some gu" by simp
    from Cons.IH [OF inv1' u1 g1 ns] True Cons.prems(3) show ?thesis by (simp add: Let_def)
  next
    case False
    then obtain gn where gn: "g_scores s n = Some gn" and keep: "\<not> ?t < gn"
      by (auto split: option.splits)
    from opt_inv_mono [OF relax_keep [OF Cons.prems(1,2,3) gn keep] sub]
    have inv1: "opt_inv X G ({u} \<times> set ns) s" .
    from Cons.IH [OF inv1 Cons.prems(2,3) ns] False Cons.prems(3) show ?thesis
      by (simp add: Let_def)
  qed
qed

lemma heappop_keeps:
  assumes "heappop q = (e, q')" and "x \<in> set q" and "x \<noteq> e"
  shows "x \<in> set q'"
proof -
  from assms(1) have "q' = remove1 e q" by (auto simp: heappop_def)
  with assms(2,3) show ?thesis by simp
qed

lemma ext_add_zero: "ext_add 0 x = x"
  by (cases x) simp_all

text \<open>Dropping the popped entry of a closed node keeps the invariant.\<close>

lemma opt_inv_drop:
  assumes inv: "opt_inv X G W s" and sub: "set q' \<subseteq> set (queue s)"
    and keeps: "\<forall>x \<in> set (queue s). snd x \<notin> close_set s \<longrightarrow> x \<in> set q'"
  shows "opt_inv X G W (s\<lparr>queue := q'\<rparr>)"
proof -
  from inv have oq: "open_queued X G s" and qs: "queue_sound X G s" by (simp_all add: opt_inv_def)
  have "open_queued X G (s\<lparr>queue := q'\<rparr>)"
    unfolding open_queued_def
  proof (intro allI impI)
    fix v gv assume "g_scores (s\<lparr>queue := q'\<rparr>) v = Some gv" "v \<notin> close_set (s\<lparr>queue := q'\<rparr>)"
    then have "g_scores s v = Some gv" "v \<notin> close_set s" by simp_all
    with oq have "(ext_add gv (h X G v), v) \<in> set (queue s)" by (simp add: open_queued_def)
    with keeps \<open>v \<notin> close_set s\<close> show "(ext_add gv (h X G v), v) \<in> set (queue (s\<lparr>queue := q'\<rparr>))"
      by fastforce
  qed
  moreover from qs sub have "queue_sound X G (s\<lparr>queue := q'\<rparr>)"
    unfolding queue_sound_def by fastforce
  moreover from inv have "closed_optimal X G (s\<lparr>queue := q'\<rparr>)"
    "scores_realised X G (s\<lparr>queue := q'\<rparr>)" "closed_relaxed X G W (s\<lparr>queue := q'\<rparr>)"
    "sources_scored G (s\<lparr>queue := q'\<rparr>)" "came_from_edges G (s\<lparr>queue := q'\<rparr>)"
    "close_set (s\<lparr>queue := q'\<rparr>) \<inter> set (target_nodes G) = {}"
    by (simp_all add: opt_inv_def closed_optimal_def scores_realised_def closed_relaxed_def
        sources_scored_def came_from_edges_def)
  ultimately show ?thesis by (simp add: opt_inv_def)
qed

text \<open>Closing the popped node, before its neighbours are looked at.\<close>

lemma opt_inv_close:
  assumes inv: "opt_inv X G {} s" and cons: "consistent X G"
    and fin: "\<forall>v. \<exists>r. h X G v = Fin r"
    and ne: "queue s \<noteq> []" and pop: "heappop (queue s) = (e, q')"
    and unclosed: "snd e \<notin> close_set s" and nt: "snd e \<notin> set (target_nodes G)"
  shows "opt_inv X G ({snd e} \<times> set (neighbors_of (store G) (snd e)))
           (s\<lparr>queue := q', close_set := insert (snd e) (close_set s)\<rparr>)"
    and "\<exists>gu. g_scores s (snd e) = Some gu"
proof -
  let ?u = "snd e"
  let ?c = "get_edge_cost X (store G)"
  let ?s2 = "s\<lparr>queue := q', close_set := insert ?u (close_set s)\<rparr>"
  note hp = heappop_queue [OF ne pop]
  from inv have co: "closed_optimal X G s" and sr: "scores_realised X G s"
    and oq: "open_queued X G s" and qs: "queue_sound X G s" and cr: "closed_relaxed X G {} s"
    and ss: "sources_scored G s" and ce: "came_from_edges G s"
    and ct: "close_set s \<inter> set (target_nodes G) = {}"
    by (simp_all add: opt_inv_def)
  from hp(1) have "(fst e, ?u) \<in> set (queue s)" by simp
  with qs obtain gu where gu: "g_scores s ?u = Some gu" unfolding queue_sound_def by blast
  then show "\<exists>gu. g_scores s ?u = Some gu" by blast
  from fin obtain r where r: "h X G ?u = Fin r" by blast
  have uopt: "\<forall>p. source_path G p ?u \<longrightarrow> gu \<le> path_cost ?c p"
  proof (intro allI impI)
    fix p assume "source_path G p ?u"
    from pop_bound [OF inv cons ne pop this unclosed] gu
    have "ext_add gu (h X G ?u) \<le> ext_add (path_cost ?c p) (h X G ?u)" by simp
    then show "gu \<le> path_cost ?c p" unfolding r by (rule ext_add_cancel)
  qed
  have 1: "closed_optimal X G ?s2"
    unfolding closed_optimal_def using co gu uopt by (auto simp: closed_optimal_def)
  have 2: "scores_realised X G ?s2"
    unfolding scores_realised_def
  proof (intro allI impI)
    fix v gv assume "g_scores ?s2 v = Some gv"
    then have "g_scores s v = Some gv" by simp
    with sr obtain p where p: "is_chain (came_from s) (v # p)" "set p \<subseteq> close_set s"
      "last (v # p) \<in> set (source_nodes G)" "chain_cost ?c (v # p) = gv"
      unfolding scores_realised_def by blast
    from p(1) have "is_chain (came_from ?s2) (v # p)" by simp
    moreover from p(2) have "set p \<subseteq> close_set ?s2" by auto
    ultimately show "\<exists>p. is_chain (came_from ?s2) (v # p) \<and> set p \<subseteq> close_set ?s2
        \<and> last (v # p) \<in> set (source_nodes G) \<and> chain_cost ?c (v # p) = gv"
      using p(3,4) by blast
  qed
  have 3: "open_queued X G ?s2"
    unfolding open_queued_def
  proof (intro allI impI)
    fix v gv assume "g_scores ?s2 v = Some gv" "v \<notin> close_set ?s2"
    then have v: "g_scores s v = Some gv" "v \<notin> close_set s" "v \<noteq> ?u" by simp_all
    with oq have "(ext_add gv (h X G v), v) \<in> set (queue s)" by (simp add: open_queued_def)
    moreover from v(3) have "(ext_add gv (h X G v), v) \<noteq> e" by auto
    ultimately have "(ext_add gv (h X G v), v) \<in> set q'" by (rule heappop_keeps [OF pop])
    then show "(ext_add gv (h X G v), v) \<in> set (queue ?s2)" by simp
  qed
  from qs hp(2) have 4: "queue_sound X G ?s2" unfolding queue_sound_def by fastforce
  have 5: "closed_relaxed X G ({?u} \<times> set (neighbors_of (store G) ?u)) ?s2"
    unfolding closed_relaxed_def
  proof (intro ballI)
    fix a b assume a: "a \<in> close_set ?s2" and b: "b \<in> set (neighbors_of (store G) a)"
    show "(a, b) \<in> {?u} \<times> set (neighbors_of (store G) ?u) \<or>
          (\<exists>ga gb. g_scores ?s2 a = Some ga \<and> g_scores ?s2 b = Some gb \<and> gb \<le> ?c a b + ga)"
    proof (cases "a = ?u")
      case True
      with b show ?thesis by simp
    next
      case False
      with a have "a \<in> close_set s" by simp
      with cr b show ?thesis unfolding closed_relaxed_def by fastforce
    qed
  qed
  from ss have 6: "sources_scored G ?s2" by (simp add: sources_scored_def)
  from ce have 7: "came_from_edges G ?s2" by (simp add: came_from_edges_def)
  from ct nt have 8: "close_set ?s2 \<inter> set (target_nodes G) = {}" by simp
  from 1 2 3 4 5 6 7 8
  show "opt_inv X G ({?u} \<times> set (neighbors_of (store G) ?u)) ?s2" by (simp add: opt_inv_def)
qed

lemma exhausted_no_route:
  assumes inv: "opt_inv X G {} s" and cons: "consistent X G" and emp: "queue s = []"
  shows "\<not> route G p"
proof
  assume "route G p"
  then have sp: "source_path G p (last p)" and t: "last p \<in> set (target_nodes G)"
    by (simp_all add: route_def source_path_def)
  from inv have co: "closed_optimal X G s" and cr: "closed_relaxed X G {} s"
    and ss: "sources_scored G s" and oq: "open_queued X G s"
    and ct: "close_set s \<inter> set (target_nodes G) = {}"
    by (simp_all add: opt_inv_def)
  from ct t have "last p \<notin> close_set s" by auto
  from frontier [OF co cr ss cons sp this] obtain y gy where "y \<notin> close_set s"
    "g_scores s y = Some gy" by blast
  with oq have "(ext_add gy (h X G y), y) \<in> set (queue s)" by (simp add: open_queued_def)
  with emp show False by simp
qed

lemma target_closed_optimal:
  assumes inv: "opt_inv X G {} s" and cons: "consistent X G"
    and hz: "\<forall>t \<in> set (target_nodes G). h X G t = Fin 0"
    and ne: "queue s \<noteq> []" and pop: "heappop (queue s) = (e, q')"
    and unclosed: "snd e \<notin> close_set s" and tgt: "snd e \<in> set (target_nodes G)"
  shows "found_optimal X G (s\<lparr>queue := q', close_set := insert (snd e) (close_set s)\<rparr>) (snd e)"
proof -
  let ?u = "snd e"
  let ?c = "get_edge_cost X (store G)"
  note hp = heappop_queue [OF ne pop]
  from inv have sr: "scores_realised X G s" and qs: "queue_sound X G s"
    and ce: "came_from_edges G s" and ct: "close_set s \<inter> set (target_nodes G) = {}"
    by (simp_all add: opt_inv_def)
  from hp(1) have "(fst e, ?u) \<in> set (queue s)" by simp
  with qs obtain gu where gu: "g_scores s ?u = Some gu" unfolding queue_sound_def by blast
  with sr obtain p where p: "is_chain (came_from s) (?u # p)"
    "last (?u # p) \<in> set (source_nodes G)" "chain_cost ?c (?u # p) = gu"
    unfolding scores_realised_def by blast
  have "\<forall>q. route G q \<longrightarrow> gu \<le> path_cost ?c q"
  proof (intro allI impI)
    fix q assume "route G q"
    then have sp: "source_path G q (last q)" and t: "last q \<in> set (target_nodes G)"
      by (simp_all add: route_def source_path_def)
    from ct t have "last q \<notin> close_set s" by auto
    from pop_bound [OF inv cons ne pop sp this] gu
    have "ext_add gu (h X G ?u) \<le> ext_add (path_cost ?c q) (h X G (last q))" by simp
    with hz tgt t show "gu \<le> path_cost ?c q" by simp
  qed
  with p(3) have "\<forall>q. route G q \<longrightarrow> chain_cost ?c (?u # p) \<le> path_cost ?c q" by simp
  with p(1,2) have "\<exists>p. is_chain (came_from s) (?u # p) \<and> last (?u # p) \<in> set (source_nodes G)
      \<and> (\<forall>q. route G q \<longrightarrow> chain_cost ?c (?u # p) \<le> path_cost ?c q)" by blast
  moreover from ce have "came_from_edges G (s\<lparr>queue := q', close_set := insert ?u (close_set s)\<rparr>)"
    by (simp add: came_from_edges_def)
  ultimately show ?thesis using tgt by (simp add: found_optimal_def del: last.simps)
qed

lemma astar_step_opt:
  assumes inv: "opt_inv X G {} s" and cons: "consistent X G"
    and fin: "\<forall>v. \<exists>r. h X G v = Fin r"
    and hz: "\<forall>t \<in> set (target_nodes G). h X G t = Fin 0"
  shows "(\<exists>s'. astar_step X G s = Inr s' \<and> opt_inv X G {} s')
       \<or> (\<exists>s'. astar_step X G s = Inl (Exhausted, s') \<and> (\<forall>p. \<not> route G p))
       \<or> (\<exists>u s'. astar_step X G s = Inl (Reached u, s') \<and> found_optimal X G s' u)"
proof (cases "queue s = []")
  case True
  with exhausted_no_route [OF inv cons True] show ?thesis by (simp add: astar_step_empty)
next
  case ne: False
  obtain e q' where pop: "heappop (queue s) = (e, q')" by (cases "heappop (queue s)")
  note hp = heappop_queue [OF ne pop]
  show ?thesis
  proof (cases "snd e \<in> close_set s")
    case True
    have "\<forall>x \<in> set (queue s). snd x \<notin> close_set s \<longrightarrow> x \<in> set q'"
      using True heappop_keeps [OF pop] by blast
    from opt_inv_drop [OF inv hp(2) this] True ne pop show ?thesis
      by (simp add: astar_step_skip)
  next
    case unclosed: False
    let ?s2 = "s\<lparr>queue := q', close_set := insert (snd e) (close_set s)\<rparr>"
    show ?thesis
    proof (cases "snd e \<in> set (target_nodes G)")
      case True
      from target_closed_optimal [OF inv cons hz ne pop unclosed True]
        astar_step_target [OF ne pop unclosed True, of X]
      show ?thesis by simp
    next
      case False
      from opt_inv_close [OF inv cons fin ne pop unclosed False]
      obtain gu where inv2: "opt_inv X G ({snd e} \<times> set (neighbors_of (store G) (snd e))) ?s2"
        and gu: "g_scores ?s2 (snd e) = Some gu" by auto
      have "snd e \<in> close_set ?s2" by simp
      from update_neighbors_opt [OF inv2 this gu subset_refl]
      obtain s3 where "update_neighbors X G (snd e) (neighbors_of (store G) (snd e)) ?s2 = Inr s3"
        "opt_inv X G {} s3" by blast
      with astar_step_expand [OF ne pop unclosed False, of X] show ?thesis by simp
    qed
  qed
qed

lemma astar_loop_opt:
  "opt_inv X G {} s \<Longrightarrow> consistent X G \<Longrightarrow> \<forall>v. \<exists>r. h X G v = Fin r \<Longrightarrow>
   \<forall>t \<in> set (target_nodes G). h X G t = Fin 0 \<Longrightarrow> astar_loop X G s = (r, s') \<Longrightarrow>
     (r = Exhausted \<and> (\<forall>p. \<not> route G p)) \<or> (\<exists>u. r = Reached u \<and> found_optimal X G s' u)"
proof (induction X G s rule: astar_loop.induct)
  case (1 X G s)
  from astar_step_opt [OF "1.prems"(1,2,3,4)]
  consider s1 where "astar_step X G s = Inr s1" "opt_inv X G {} s1"
    | s1 where "astar_step X G s = Inl (Exhausted, s1)" "\<forall>p. \<not> route G p"
    | u s1 where "astar_step X G s = Inl (Reached u, s1)" "found_optimal X G s1 u"
    by blast
  then show ?case
  proof cases
    case 1
    with "1.prems"(5) have "astar_loop X G s1 = (r, s')"
      by (simp add: astar_loop.simps [of X G s])
    from "1.IH" [OF 1(1) 1(2) "1.prems"(2,3,4) this] show ?thesis .
  next
    case 2
    with "1.prems"(5) show ?thesis by (simp add: astar_loop.simps [of X G s])
  next
    case 3
    with "1.prems"(5) show ?thesis by (auto simp: astar_loop.simps [of X G s])
  qed
qed

lemma seed_inv_fold:
  "seed_inv X G s \<Longrightarrow> set srcs \<subseteq> set (source_nodes G) \<Longrightarrow>
     seed_inv X G (fold (seed_source X G) srcs s)
     \<and> dom (g_scores (fold (seed_source X G) srcs s)) = dom (g_scores s) \<union> set srcs"
proof (induction srcs arbitrary: s)
  case Nil
  then show ?case by simp
next
  case (Cons a srcs)
  from Cons.prems have "seed_inv X G (seed_source X G a s)"
    unfolding seed_inv_def seed_source_def heappush_def by auto
  from Cons.IH [OF this] Cons.prems(2) show ?case by (auto simp: seed_source_def)
qed

lemma seed_inv_opt:
  assumes "seed_inv X G s" and "set (source_nodes G) \<subseteq> dom (g_scores s)"
  shows "opt_inv X G {} s"
proof -
  from assms(1) have cs: "close_set s = {}" and cf: "came_from s = Map.empty"
    and g: "\<forall>v gv. g_scores s v = Some gv \<longrightarrow>
        gv = 0 \<and> v \<in> set (source_nodes G) \<and> (h X G v, v) \<in> set (queue s)"
    and q: "\<forall>k v. (k, v) \<in> set (queue s) \<longrightarrow> g_scores s v = Some 0 \<and> k = h X G v"
    by (simp_all add: seed_inv_def)
  have 1: "closed_optimal X G s" by (simp add: closed_optimal_def cs)
  have 2: "scores_realised X G s"
    unfolding scores_realised_def
  proof (intro allI impI)
    fix v gv assume "g_scores s v = Some gv"
    with g have "gv = 0" "v \<in> set (source_nodes G)" by blast+
    then have "is_chain (came_from s) (v # []) \<and> set [] \<subseteq> close_set s
        \<and> last (v # []) \<in> set (source_nodes G)
        \<and> chain_cost (get_edge_cost X (store G)) (v # []) = gv" by (simp add: cf)
    then show "\<exists>p. is_chain (came_from s) (v # p) \<and> set p \<subseteq> close_set s
        \<and> last (v # p) \<in> set (source_nodes G)
        \<and> chain_cost (get_edge_cost X (store G)) (v # p) = gv" by (rule exI)
  qed
  have 3: "open_queued X G s"
    unfolding open_queued_def
  proof (intro allI impI)
    fix v gv assume "g_scores s v = Some gv"
    with g have "gv = 0" "(h X G v, v) \<in> set (queue s)" by blast+
    then show "(ext_add gv (h X G v), v) \<in> set (queue s)" by (simp add: ext_add_zero)
  qed
  have 4: "queue_sound X G s"
    unfolding queue_sound_def
  proof (intro allI impI)
    fix k v assume "(k, v) \<in> set (queue s)"
    with q have "g_scores s v = Some 0" "k = h X G v" by blast+
    then show "\<exists>gv. g_scores s v = Some gv \<and> ext_add gv (h X G v) \<le> k"
      by (simp add: ext_add_zero)
  qed
  have 5: "closed_relaxed X G {} s" by (simp add: closed_relaxed_def cs)
  have 6: "sources_scored G s"
    unfolding sources_scored_def using assms(2) g by fastforce
  have 7: "came_from_edges G s" by (simp add: came_from_edges_def cf)
  from 1 2 3 4 5 6 7 show ?thesis by (simp add: opt_inv_def cs)
qed

lemma opt_inv_start: "opt_inv X G {} (fold (seed_source X G) (source_nodes G) astar_init)"
proof -
  have "seed_inv X G astar_init" by (simp add: seed_inv_def astar_init_def)
  from seed_inv_fold [OF this subset_refl] show ?thesis
    by (intro seed_inv_opt) auto
qed

subsection \<open>The order of the pushes\<close>

lemma same_entries_refl: "same_entries s s"
  by (simp add: same_entries_def)

lemma heappop_mset:
  assumes "mset q = mset q'"
  shows "fst (heappop q) = fst (heappop q')"
    and "mset (snd (heappop q)) = mset (snd (heappop q'))"
proof -
  from assms have "set q = set q'" by (rule mset_eq_setD)
  then show "fst (heappop q) = fst (heappop q')" by (simp add: heappop_def)
  with assms show "mset (snd (heappop q)) = mset (snd (heappop q'))"
    by (simp add: heappop_def)
qed

lemma h_cong:
  "target_nodes G' = target_nodes G \<Longrightarrow> \<forall>n. center_of (store G') n = center_of (store G) n
     \<Longrightarrow> h X G' n = h X G n"
  by (simp add: h_def)

lemma update_neighbors_cong:
  assumes "get_edge_cost X (store G') = get_edge_cost X (store G)" and "\<forall>n. h X G' n = h X G n"
  shows "update_neighbors X G' c nbrs s = update_neighbors X G c nbrs s"
  using assms by (induction nbrs arbitrary: s) (simp_all add: Let_def split: option.splits)

lemma update_neighbors_None:
  "g_scores s c = None \<Longrightarrow>
     update_neighbors X G c nbrs s = (if nbrs = [] then Inr s else Inl KeyError)"
  by (cases nbrs) simp_all

text \<open>The loop over the neighbours of \<open>c\<close>, when \<open>c\<close> is not among them: every neighbour
  that the edge from \<open>c\<close> improves gets its new scores and one entry in the queue.\<close>

lemma update_neighbors_result:
  assumes "g_scores s c = Some gc" and "c \<notin> set nbrs"
  shows "\<exists>s'. update_neighbors X G c nbrs s = Inr s'
           \<and> close_set s' = close_set s
           \<and> g_scores s' = (\<lambda>k. if k \<in> set nbrs \<and> improves X G c gc s k
                                 then Some (get_edge_cost X (store G) c k + gc) else g_scores s k)
           \<and> came_from s' = (\<lambda>k. if k \<in> set nbrs \<and> improves X G c gc s k
                                 then Some c else came_from s k)
           \<and> f_scores s' = (\<lambda>k. if k \<in> set nbrs \<and> improves X G c gc s k
                                 then Some (ext_add (get_edge_cost X (store G) c k + gc) (h X G k))
                                 else f_scores s k)
           \<and> mset (queue s') = mset (queue s)
                + image_mset (\<lambda>k. (ext_add (get_edge_cost X (store G) c k + gc) (h X G k), k))
                    (mset_set {k \<in> set nbrs. improves X G c gc s k})"
  using assms
proof (induction nbrs arbitrary: s)
  case Nil
  then show ?case by simp
next
  case (Cons n rest)
  let ?t = "\<lambda>k. get_edge_cost X (store G) c k + gc"
  let ?F = "\<lambda>k. (ext_add (?t k) (h X G k), k)"
  from Cons.prems have nc: "n \<noteq> c" and cr: "c \<notin> set rest" by auto
  show ?case
  proof (cases "improves X G c gc s n")
    case True
    let ?s1 = "s\<lparr>came_from := (came_from s)(n \<mapsto> c),
                  g_scores := (g_scores s)(n \<mapsto> ?t n),
                  f_scores := (f_scores s)(n \<mapsto> ext_add (?t n) (h X G n)),
                  queue := heappush (queue s) (ext_add (?t n) (h X G n), n)\<rparr>"
    from True Cons.prems(1)
    have step: "update_neighbors X G c (n # rest) s = update_neighbors X G c rest ?s1"
      by (simp add: improves_def Let_def)
    from Cons.prems(1) nc have g1: "g_scores ?s1 c = Some gc" by simp
    have imp1: "improves X G c gc ?s1 k = (k \<noteq> n \<and> improves X G c gc s k)" for k
      by (simp add: improves_def)
    from Cons.IH [OF g1 cr] obtain s' where s':
      "update_neighbors X G c rest ?s1 = Inr s'"
      "close_set s' = close_set ?s1"
      "g_scores s' = (\<lambda>k. if k \<in> set rest \<and> improves X G c gc ?s1 k
                                 then Some (?t k) else g_scores ?s1 k)"
      "came_from s' = (\<lambda>k. if k \<in> set rest \<and> improves X G c gc ?s1 k
                                 then Some c else came_from ?s1 k)"
      "f_scores s' = (\<lambda>k. if k \<in> set rest \<and> improves X G c gc ?s1 k
                                 then Some (ext_add (?t k) (h X G k)) else f_scores ?s1 k)"
      "mset (queue s') = mset (queue ?s1)
                + image_mset ?F (mset_set {k \<in> set rest. improves X G c gc ?s1 k})"
      by blast
    let ?A = "{k \<in> set (n # rest). improves X G c gc s k}"
    have A: "{k \<in> set rest. improves X G c gc ?s1 k} = ?A - {n}"
      unfolding imp1 by auto
    have "finite ?A" "n \<in> ?A" using True by simp_all
    then have ms: "mset_set ?A = add_mset n (mset_set (?A - {n}))"
      by (rule mset_set.remove)
    have q: "mset (queue s') = mset (queue s) + image_mset ?F (mset_set ?A)"
      unfolding s'(6) A ms by (simp add: heappush_def)
    have g: "g_scores s' = (\<lambda>k. if k \<in> set (n # rest) \<and> improves X G c gc s k
                                 then Some (?t k) else g_scores s k)"
      unfolding s'(3) imp1 using True by (auto simp: fun_eq_iff)
    have cf: "came_from s' = (\<lambda>k. if k \<in> set (n # rest) \<and> improves X G c gc s k
                                 then Some c else came_from s k)"
      unfolding s'(4) imp1 using True by (auto simp: fun_eq_iff)
    have f: "f_scores s' = (\<lambda>k. if k \<in> set (n # rest) \<and> improves X G c gc s k
                                 then Some (ext_add (?t k) (h X G k)) else f_scores s k)"
      unfolding s'(5) imp1 using True by (auto simp: fun_eq_iff)
    from s'(2) have cl: "close_set s' = close_set s" by simp
    from step s'(1) have r: "update_neighbors X G c (n # rest) s = Inr s'" by simp
    show ?thesis by (rule exI [of _ s']) (intro conjI r cl g cf f q)
  next
    case False
    from False Cons.prems(1)
    have step: "update_neighbors X G c (n # rest) s = update_neighbors X G c rest s"
      by (auto simp: improves_def Let_def split: option.splits)
    from Cons.IH [OF Cons.prems(1) cr] obtain s' where s':
      "update_neighbors X G c rest s = Inr s'"
      "close_set s' = close_set s"
      "g_scores s' = (\<lambda>k. if k \<in> set rest \<and> improves X G c gc s k
                                 then Some (?t k) else g_scores s k)"
      "came_from s' = (\<lambda>k. if k \<in> set rest \<and> improves X G c gc s k
                                 then Some c else came_from s k)"
      "f_scores s' = (\<lambda>k. if k \<in> set rest \<and> improves X G c gc s k
                                 then Some (ext_add (?t k) (h X G k)) else f_scores s k)"
      "mset (queue s') = mset (queue s)
                + image_mset ?F (mset_set {k \<in> set rest. improves X G c gc s k})"
      by blast
    have A: "{k \<in> set rest. improves X G c gc s k} = {k \<in> set (n # rest). improves X G c gc s k}"
      using False by auto
    have g: "g_scores s' = (\<lambda>k. if k \<in> set (n # rest) \<and> improves X G c gc s k
                                 then Some (?t k) else g_scores s k)"
      unfolding s'(3) using False by (auto simp: fun_eq_iff)
    have cf: "came_from s' = (\<lambda>k. if k \<in> set (n # rest) \<and> improves X G c gc s k
                                 then Some c else came_from s k)"
      unfolding s'(4) using False by (auto simp: fun_eq_iff)
    have f: "f_scores s' = (\<lambda>k. if k \<in> set (n # rest) \<and> improves X G c gc s k
                                 then Some (ext_add (?t k) (h X G k)) else f_scores s k)"
      unfolding s'(5) using False by (auto simp: fun_eq_iff)
    from step s'(1) have r: "update_neighbors X G c (n # rest) s = Inr s'" by simp
    note q = s'(6) [unfolded A]
    show ?thesis by (rule exI [of _ s']) (intro conjI r s'(2) g cf f q)
  qed
qed

lemma improves_same: "g_scores s = g_scores s' \<Longrightarrow> improves X G c gc s = improves X G c gc s'"
  by (simp add: improves_def fun_eq_iff)

lemma update_neighbors_reorder:
  assumes se: "same_entries s s'" and nb: "set nbrs' = set nbrs" and c: "c \<notin> set nbrs"
  shows "same_result (update_neighbors X G c nbrs s) (update_neighbors X G c nbrs' s')"
proof (cases "g_scores s c")
  case None
  with se have "g_scores s' c = None" by (simp add: same_entries_def)
  from update_neighbors_None [OF None, of X G nbrs] update_neighbors_None [OF this, of X G nbrs']
  show ?thesis using nb se by (auto simp: same_result_def)
next
  case (Some gc)
  with se have g': "g_scores s' c = Some gc" by (simp add: same_entries_def)
  from c nb have c': "c \<notin> set nbrs'" by simp
  from se have gg: "g_scores s = g_scores s'" by (simp add: same_entries_def)
  note im = improves_same [OF gg, of X G c gc]
  from update_neighbors_result [OF Some c, of X G] obtain t where t:
    "update_neighbors X G c nbrs s = Inr t"
    "close_set t = close_set s"
    "g_scores t = (\<lambda>k. if k \<in> set nbrs \<and> improves X G c gc s k
                                 then Some (get_edge_cost X (store G) c k + gc) else g_scores s k)"
    "came_from t = (\<lambda>k. if k \<in> set nbrs \<and> improves X G c gc s k
                                 then Some c else came_from s k)"
    "f_scores t = (\<lambda>k. if k \<in> set nbrs \<and> improves X G c gc s k
                                 then Some (ext_add (get_edge_cost X (store G) c k + gc) (h X G k))
                                 else f_scores s k)"
    "mset (queue t) = mset (queue s)
                + image_mset (\<lambda>k. (ext_add (get_edge_cost X (store G) c k + gc) (h X G k), k))
                    (mset_set {k \<in> set nbrs. improves X G c gc s k})"
    by blast
  from update_neighbors_result [OF g' c', of X G] obtain t' where t':
    "update_neighbors X G c nbrs' s' = Inr t'"
    "close_set t' = close_set s'"
    "g_scores t' = (\<lambda>k. if k \<in> set nbrs' \<and> improves X G c gc s' k
                                 then Some (get_edge_cost X (store G) c k + gc) else g_scores s' k)"
    "came_from t' = (\<lambda>k. if k \<in> set nbrs' \<and> improves X G c gc s' k
                                 then Some c else came_from s' k)"
    "f_scores t' = (\<lambda>k. if k \<in> set nbrs' \<and> improves X G c gc s' k
                                 then Some (ext_add (get_edge_cost X (store G) c k + gc) (h X G k))
                                 else f_scores s' k)"
    "mset (queue t') = mset (queue s')
                + image_mset (\<lambda>k. (ext_add (get_edge_cost X (store G) c k + gc) (h X G k), k))
                    (mset_set {k \<in> set nbrs'. improves X G c gc s' k})"
    by blast
  from se have "same_entries t t'"
    unfolding same_entries_def t(2-6) t'(2-6) nb im by auto
  with t(1) t'(1) show ?thesis by (simp add: same_result_def)
qed

lemma astar_step_reorder:
  assumes tn: "target_nodes G' = target_nodes G"
    and cen: "\<forall>n. center_of (store G') n = center_of (store G) n"
    and nbs: "\<forall>n. set (neighbors_of (store G') n) = set (neighbors_of (store G) n)"
    and cost: "get_edge_cost X (store G') = get_edge_cost X (store G)"
    and noself: "\<forall>n. n \<notin> set (neighbors_of (store G) n)"
    and se: "same_entries s s'"
  shows "same_step (astar_step X G s) (astar_step X G' s')"
proof (cases "queue s = []")
  case True
  with se have "queue s' = []" by (simp add: same_entries_def)
  with True se show ?thesis by (simp add: astar_step_empty same_step_def)
next
  case ne: False
  from se have mq: "mset (queue s) = mset (queue s')" by (simp add: same_entries_def)
  with ne have ne': "queue s' \<noteq> []" by auto
  obtain e q1 where pop: "heappop (queue s) = (e, q1)" by (cases "heappop (queue s)")
  obtain e' q1' where pop': "heappop (queue s') = (e', q1')" by (cases "heappop (queue s')")
  from heappop_mset [OF mq] pop pop' have ee: "e' = e" and mq1: "mset q1 = mset q1'" by simp_all
  from se have cl: "close_set s' = close_set s" by (simp add: same_entries_def)
  show ?thesis
  proof (cases "snd e \<in> close_set s")
    case True
    from astar_step_skip [OF ne pop True, of X G]
      astar_step_skip [OF ne' pop' [unfolded ee], of X G'] True cl se mq1
    show ?thesis by (simp add: same_step_def same_entries_def)
  next
    case unclosed: False
    let ?s2 = "s\<lparr>queue := q1, close_set := insert (snd e) (close_set s)\<rparr>"
    let ?s2' = "s'\<lparr>queue := q1', close_set := insert (snd e) (close_set s')\<rparr>"
    from se mq1 have se2: "same_entries ?s2 ?s2'" by (simp add: same_entries_def)
    from unclosed cl have unclosed': "snd e \<notin> close_set s'" by simp
    show ?thesis
    proof (cases "snd e \<in> set (target_nodes G)")
      case True
      from astar_step_target [OF ne pop unclosed True, of X]
        astar_step_target [OF ne' pop' [unfolded ee] unclosed', of G' X] True tn se2
      show ?thesis by (simp add: same_step_def)
    next
      case False
      from False tn have nt': "snd e \<notin> set (target_nodes G')" by simp
      have hh: "\<forall>n. h X G' n = h X G n" using h_cong [OF tn cen] by blast
      have "same_result
              (update_neighbors X G (snd e) (neighbors_of (store G) (snd e)) ?s2)
              (update_neighbors X G (snd e) (neighbors_of (store G') (snd e)) ?s2')"
        using se2 nbs noself by (intro update_neighbors_reorder) simp_all
      then have sr: "same_result
              (update_neighbors X G (snd e) (neighbors_of (store G) (snd e)) ?s2)
              (update_neighbors X G' (snd e) (neighbors_of (store G') (snd e)) ?s2')"
        by (simp add: update_neighbors_cong [OF cost hh])
      from astar_step_expand [OF ne pop unclosed False, of X]
        astar_step_expand [OF ne' pop' [unfolded ee] unclosed' nt', of X] sr se2
      show ?thesis by (auto simp: same_step_def same_result_def split: sum.splits)
    qed
  qed
qed

lemma astar_loop_reorder:
  assumes "target_nodes G' = target_nodes G"
    and "\<forall>n. center_of (store G') n = center_of (store G) n"
    and "\<forall>n. set (neighbors_of (store G') n) = set (neighbors_of (store G) n)"
    and "get_edge_cost X (store G') = get_edge_cost X (store G)"
    and "\<forall>n. n \<notin> set (neighbors_of (store G) n)"
    and "same_entries s s'"
  shows "fst (astar_loop X G' s') = fst (astar_loop X G s)
       \<and> same_entries (snd (astar_loop X G s)) (snd (astar_loop X G' s'))"
  using assms
proof (induction X G s arbitrary: s' rule: astar_loop.induct)
  case (1 X G s)
  from astar_step_reorder [OF "1.prems"]
  have st: "same_step (astar_step X G s) (astar_step X G' s')" .
  show ?case
  proof (cases "astar_step X G s")
    case (Inl x)
    obtain r t where x: "x = (r, t)" by (cases x)
    with Inl st obtain t' where t': "astar_step X G' s' = Inl (r, t')" "same_entries t t'"
      by (auto simp: same_step_def split: sum.splits)
    from Inl x have "astar_loop X G s = (r, t)" by (subst astar_loop.simps) simp
    moreover from t'(1) have "astar_loop X G' s' = (r, t')" by (subst astar_loop.simps) simp
    ultimately show ?thesis using t'(2) by simp
  next
    case (Inr t)
    with st obtain t' where t': "astar_step X G' s' = Inr t'" "same_entries t t'"
      by (auto simp: same_step_def split: sum.splits)
    from Inr have a: "astar_loop X G s = astar_loop X G t" by (subst astar_loop.simps) simp
    from t'(1) have b: "astar_loop X G' s' = astar_loop X G' t'" by (subst astar_loop.simps) simp
    from "1.IH" [OF Inr "1.prems"(1-5) t'(2)] show ?thesis unfolding a b .
  qed
qed

lemma seed_fold:
  "g_scores (fold (seed_source X G) srcs s)
     = (\<lambda>k. if k \<in> set srcs then Some 0 else g_scores s k)
   \<and> f_scores (fold (seed_source X G) srcs s)
     = (\<lambda>k. if k \<in> set srcs then Some (h X G k) else f_scores s k)
   \<and> queue (fold (seed_source X G) srcs s) = queue s @ map (\<lambda>n. (h X G n, n)) srcs
   \<and> close_set (fold (seed_source X G) srcs s) = close_set s
   \<and> came_from (fold (seed_source X G) srcs s) = came_from s"
  by (induction srcs arbitrary: s) (auto simp: seed_source_def heappush_def fun_eq_iff)

lemma seed_reorder:
  assumes "mset srcs' = mset srcs" and "\<forall>n. h X G' n = h X G n"
  shows "same_entries (fold (seed_source X G) srcs astar_init)
           (fold (seed_source X G') srcs' astar_init)"
proof -
  from assms(1) have "set srcs' = set srcs" by (rule mset_eq_setD)
  moreover have "mset (map (\<lambda>n. (h X G n, n)) srcs) = mset (map (\<lambda>n. (h X G n, n)) srcs')"
    using assms(1) by simp
  ultimately show ?thesis using assms(2)
    by (auto simp: same_entries_def seed_fold)
qed

lemma least_entry_is_Min:
  assumes "(f, current) \<in> set q"
    and "\<forall>(f', node) \<in> set q. f < f' \<or> (f = f' \<and> current \<le> node)"
  shows "heappop q = ((f, current), remove1 (f, current) q)"
proof -
  have "Min (set q) = (f, current)"
  proof (rule Min_eqI)
    show "finite (set q)" by simp
    show "(f, current) \<in> set q" by (rule assms(1))
    fix y assume "y \<in> set q"
    with assms(2) show "(f, current) \<le> y" by (cases y) (auto simp: less_eq_prod_def)
  qed
  then show ?thesis by (simp add: heappop_def)
qed

lemma astar_step_closes_least:
  assumes "(f, current) \<in> set (queue s)"
    and "\<forall>(f', node) \<in> set (queue s). f < f' \<or> (f = f' \<and> current \<le> node)"
  shows "close_set (round_state (astar_step X G s)) = insert current (close_set s)"
proof -
  from assms(1) have ne: "queue s \<noteq> []" by auto
  note pop = least_entry_is_Min [OF assms]
  show ?thesis
  proof (cases "current \<in> close_set s")
    case True
    with astar_step_skip [OF ne pop, of X G] show ?thesis
      by (auto simp: round_state_def)
  next
    case unclosed: False
    show ?thesis
    proof (cases "current \<in> set (target_nodes G)")
      case True
      with astar_step_target [OF ne pop, of G X] unclosed show ?thesis
        by (simp add: round_state_def)
    next
      case False
      let ?s2 = "s\<lparr>queue := remove1 (f, current) (queue s),
                    close_set := insert current (close_set s)\<rparr>"
      note st = astar_step_expand [OF ne pop, of G X, simplified]
      show ?thesis
      proof (cases "update_neighbors X G current (neighbors_of (store G) current) ?s2")
        case (Inl er)
        with st unclosed False show ?thesis by (simp add: round_state_def)
      next
        case (Inr s3)
        from update_neighbors_close_set [OF Inr] Inr st unclosed False show ?thesis
          by (simp add: round_state_def)
      qed
    qed
  qed
qed


section \<open>The claims about find_shortest_path\<close>

lemma demo_graph_result:
  "find_shortest_path demo_externals demo_graph = Return (Some [3, 2, 0])"
  by (simp add: search_eval demo_defs demo_graph_def)

text \<open>
  Claim C1, as the specification states it: the returned sequence runs from source to
  target, its first element a source node and its last a target node. The code appends the
  closed target node first, walks \<open>came_from\<close> back to a source node and returns the list as
  it is, without reversing it. On the example graph the path starts at the target node 3 and
  ends at the source node 0.
\<close>

theorem path_source_first_counterexample:
  "find_shortest_path demo_externals demo_graph = Return (Some [3, 2, 0])
   \<and> \<not> (hd [3, 2, 0::nat] \<in> set (source_nodes demo_graph)
        \<and> last [3, 2, 0::nat] \<in> set (target_nodes demo_graph))"
  by (simp add: demo_graph_result) (simp add: demo_graph_def demo_defs)

text \<open>
  Claim C1, amended: whenever \<open>find_shortest_path\<close> returns a path, the path is ordered from
  target to source. Its first element is a target node, its last element is a source node,
  and read backwards each node is a neighbour of the one before it.
\<close>

theorem path_target_first:
  assumes "find_shortest_path X G = Return (Some path)"
  shows "path \<noteq> [] \<and> hd path \<in> set (target_nodes G) \<and> last path \<in> set (source_nodes G)
       \<and> path_ok (store G) (rev path)"
proof -
  let ?s0 = "fold (seed_source X G) (source_nodes G) astar_init"
  obtain r s' where loop: "astar_loop X G ?s0 = (r, s')" by (cases "astar_loop X G ?s0")
  from assms loop obtain t where r: "r = Reached t" and walk: "walk_back (came_from s') t = Some path"
    by (auto simp: find_shortest_path_def split: loop_exit.splits option.splits)
  from astar_loop_inv [OF search_inv_start loop] r
  have inv: "search_inv G s'" and t: "t \<in> set (target_nodes G)" "t \<in> dom (g_scores s')"
    by auto
  from walk_back_chain [OF walk] have ch: "is_chain (came_from s') path" and hd: "hd path = t"
    by simp_all
  from ch have ne: "path \<noteq> []" by (cases path) auto
  from ne have "last path \<in> set path" by simp
  with chain_members [OF ch] have "last path = t \<or> last path \<in> ran (came_from s')"
    using hd by auto
  with inv t(2) have "last path \<in> dom (g_scores s')"
    by (auto simp: search_inv_def ran_def)
  moreover from chain_last [OF ch] have "last path \<notin> dom (came_from s')" by auto
  ultimately have "last path \<in> set (source_nodes G)"
    using inv by (auto simp: search_inv_def)
  moreover from inv have "\<forall>v u. came_from s' v = Some u \<longrightarrow> v \<in> set (neighbors_of (store G) u)"
    by (simp add: search_inv_def)
  from chain_path_ok [OF ch this] have "path_ok (store G) (rev path)" .
  ultimately show ?thesis using ne hd t(1) by simp
qed

theorem path_target_first_witness:
  "hd [3, 2, 0::nat] \<in> set (target_nodes demo_graph)
   \<and> last [3, 2, 0::nat] \<in> set (source_nodes demo_graph)
   \<and> path_ok (store demo_graph) (rev [3, 2, 0])"
  using path_target_first [OF demo_graph_result] by simp

text \<open>
  Claim C2: when the search closes a target node, the returned path is a cheapest route.
  The edge cost and the distance of two points are external to \<open>hanan_graph.py\<close>; the theorem
  holds for every distance that is never negative and zero from a point to itself, and for
  every edge cost along which the heuristic \<open>h\<close> of the code is consistent. The search then
  returns a route whose cost is at most the cost of every route from a source node to a
  target node, or it returns \<open>None\<close> and there is no route at all.
\<close>

theorem first_closed_target_optimal:
  assumes dist_nonneg: "\<forall>p q. 0 \<le> distance X p q"
    and dist_self: "\<forall>p. distance X p p = 0"
    and cons: "\<forall>u v. v \<in> set (neighbors_of (store G) u) \<longrightarrow>
                 h X G u \<le> ext_add (get_edge_cost X (store G) u v) (h X G v)"
  shows "(\<exists>path. find_shortest_path X G = Return (Some path) \<and> route G (rev path)
            \<and> (\<forall>p. route G p \<longrightarrow>
                 path_cost (get_edge_cost X (store G)) (rev path)
                   \<le> path_cost (get_edge_cost X (store G)) p))
       \<or> (find_shortest_path X G = Return None \<and> (\<forall>p. \<not> route G p))"
proof -
  let ?c = "get_edge_cost X (store G)"
  let ?s0 = "fold (seed_source X G) (source_nodes G) astar_init"
  obtain r s' where loop: "astar_loop X G ?s0 = (r, s')" by (cases "astar_loop X G ?s0")
  show ?thesis
  proof (cases "target_nodes G = []")
    case True
    from astar_loop_inv [OF search_inv_start loop] True have "r = Exhausted" by auto
    with loop have "find_shortest_path X G = Return None" by (simp add: find_shortest_path_def)
    moreover from True have "\<forall>p. \<not> route G p" by (simp add: route_def)
    ultimately show ?thesis by blast
  next
    case False
    then have fin: "\<forall>v. \<exists>r. h X G v = Fin r" using h_finite by blast
    have hz: "\<forall>t \<in> set (target_nodes G). h X G t = Fin 0"
      using h_target_zero [OF dist_nonneg dist_self] by blast
    from cons have cons': "consistent X G" by (simp add: consistent_def)
    from astar_loop_opt [OF opt_inv_start cons' fin hz loop]
    show ?thesis
    proof
      assume "r = Exhausted \<and> (\<forall>p. \<not> route G p)"
      with loop show ?thesis by (simp add: find_shortest_path_def)
    next
      assume "\<exists>u. r = Reached u \<and> found_optimal X G s' u"
      then obtain u p where r: "r = Reached u" and u: "u \<in> set (target_nodes G)"
        and ce: "came_from_edges G s'" and ch: "is_chain (came_from s') (u # p)"
        and src: "last (u # p) \<in> set (source_nodes G)"
        and opt: "\<forall>q. route G q \<longrightarrow> chain_cost ?c (u # p) \<le> path_cost ?c q"
        unfolding found_optimal_def by blast
      from chain_walk_back [OF ch] loop r
      have res: "find_shortest_path X G = Return (Some (u # p))"
        by (simp add: find_shortest_path_def)
      have "source_path G (rev (u # p)) u" by (rule chain_source_path(1) [OF ce ch src])
      moreover have pc: "path_cost ?c (rev (u # p)) = chain_cost ?c (u # p)"
        by (rule path_cost_rev)
      ultimately have "source_path G (rev (u # p)) u" "path_cost ?c (rev (u # p)) = chain_cost ?c (u # p)"
        by simp_all
      with u have "route G (rev (u # p))" by (simp add: route_def source_path_def)
      with res opt pc show ?thesis by auto
    qed
  qed
qed

lemma demo_graph_h:
  "h demo_externals demo_graph 0 = Fin 2" "h demo_externals demo_graph 1 = Fin 1"
  "h demo_externals demo_graph 2 = Fin 1" "h demo_externals demo_graph 3 = Fin 0"
  by (simp_all add: h_def center_of_def demo_graph_def demo_defs)

lemma demo_graph_edges:
  assumes "v \<in> set (neighbors_of (store demo_graph) u)"
  shows "(u, v) \<in> {(0, 1), (0, 2), (1, 0), (1, 3), (2, 3), (2, 0), (3, 2), (3, 1)}"
  using assms by (auto simp: neighbors_of_def demo_graph_def demo_defs split: if_splits)

lemma demo_graph_cost:
  "get_edge_cost demo_externals (store demo_graph) 0 1 = 2"
  "get_edge_cost demo_externals (store demo_graph) 0 2 = 1"
  "get_edge_cost demo_externals (store demo_graph) 1 0 = 2"
  "get_edge_cost demo_externals (store demo_graph) 1 3 = 1"
  "get_edge_cost demo_externals (store demo_graph) 2 3 = 2"
  "get_edge_cost demo_externals (store demo_graph) 2 0 = 1"
  "get_edge_cost demo_externals (store demo_graph) 3 2 = 2"
  "get_edge_cost demo_externals (store demo_graph) 3 1 = 1"
  by (simp_all add: center_of_def demo_graph_def demo_defs)

lemma demo_graph_consistent:
  "\<forall>u v. v \<in> set (neighbors_of (store demo_graph) u) \<longrightarrow>
     h demo_externals demo_graph u
       \<le> ext_add (get_edge_cost demo_externals (store demo_graph) u v) (h demo_externals demo_graph v)"
proof (intro allI impI)
  fix u v assume "v \<in> set (neighbors_of (store demo_graph) u)"
  from demo_graph_edges [OF this]
  show "h demo_externals demo_graph u
       \<le> ext_add (get_edge_cost demo_externals (store demo_graph) u v) (h demo_externals demo_graph v)"
    using demo_graph_h demo_graph_cost by auto
qed

theorem first_closed_target_optimal_witness:
  "find_shortest_path demo_externals demo_graph = Return (Some [3, 2, 0])
   \<and> route demo_graph [0, 1, 3]
   \<and> path_cost (get_edge_cost demo_externals (store demo_graph)) (rev [3, 2, 0])
       \<le> path_cost (get_edge_cost demo_externals (store demo_graph)) [0, 1, 3]"
proof -
  have d1: "\<forall>p q. 0 \<le> distance demo_externals p q" by (simp add: demo_defs)
  have d2: "\<forall>p. distance demo_externals p p = 0" by (simp add: demo_defs)
  have r: "route demo_graph [0, 1, 3]"
    by (simp add: route_def neighbors_of_def demo_graph_def demo_defs)
  from first_closed_target_optimal [OF d1 d2 demo_graph_consistent] demo_graph_result
  have "\<forall>p. route demo_graph p \<longrightarrow>
          path_cost (get_edge_cost demo_externals (store demo_graph)) (rev [3, 2, 0])
            \<le> path_cost (get_edge_cost demo_externals (store demo_graph)) p"
    by simp
  with r demo_graph_result show ?thesis by blast
qed

text \<open>
  Claim C3: when no target node can be reached from a source node (in particular when
  there is no source node or no target node), \<open>find_shortest_path\<close> returns \<open>None\<close>: the loop
  ends with the queue empty, no exception is raised and no path is built.
\<close>

theorem unreachable_returns_None:
  assumes "\<forall>t \<in> set (target_nodes G). \<not> reachable G t"
  shows "find_shortest_path X G = Return None"
proof -
  let ?s0 = "fold (seed_source X G) (source_nodes G) astar_init"
  obtain r s' where loop: "astar_loop X G ?s0 = (r, s')" by (cases "astar_loop X G ?s0")
  from astar_loop_inv [OF search_inv_start loop]
  have "r = Exhausted"
  proof
    assume "r = Exhausted" then show ?thesis .
  next
    assume "\<exists>t. r = Reached t \<and> search_inv G s' \<and> t \<in> set (target_nodes G) \<and> t \<in> dom (g_scores s')"
    then obtain t where "search_inv G s'" "t \<in> set (target_nodes G)" "t \<in> dom (g_scores s')" by blast
    then have "reachable G t" "t \<in> set (target_nodes G)" by (auto simp: search_inv_def)
    with assms show ?thesis by blast
  qed
  with loop show ?thesis by (simp add: find_shortest_path_def)
qed

lemma demo_cut_reachable: "reachable demo_cut_graph v \<Longrightarrow> v \<in> {0, 1, 2}"
  by (induction rule: reachable.induct)
     (auto simp: neighbors_of_def demo_cut_graph_def demo_defs split: if_splits)

theorem unreachable_returns_None_witness:
  "\<not> reachable demo_cut_graph 3
   \<and> find_shortest_path demo_externals demo_cut_graph = Return None"
proof -
  have n: "\<not> reachable demo_cut_graph 3" using demo_cut_reachable [of 3] by auto
  then have "\<forall>t \<in> set (target_nodes demo_cut_graph). \<not> reachable demo_cut_graph t"
    by (simp add: demo_cut_graph_def demo_defs)
  from unreachable_returns_None [OF this] n show ?thesis by simp
qed

text \<open>
  Claim C4, as the specification states it: ties in the key \<open>f\<close> are broken by an insertion
  sequence number that grows with each push. The code pushes \<open>(f, node.id, node)\<close>: the second
  component is the id the node got when it was created, not a count of pushes. On the
  example graph the first round pushes node 2 and then node 1 with the same \<open>f\<close>; the next
  pop takes node 1, the entry pushed last, and node 1 ends the returned path.
\<close>

theorem tie_break_counterexample:
  "(case astar_step demo_externals demo_tie_graph
           (fold (seed_source demo_externals demo_tie_graph) (source_nodes demo_tie_graph) astar_init) of
      Inl r \<Rightarrow> [] | Inr s \<Rightarrow> queue s) = [(Fin 1, 2), (Fin 1, 1)]
   \<and> fst (heappop [(Fin 1, 2::nat), (Fin 1, 1)]) = (Fin 1, 1)
   \<and> find_shortest_path demo_externals demo_tie_graph = Return (Some [1, 0])"
  by (simp add: search_eval demo_defs demo_tie_graph_def)

text \<open>
  Claim C4, amended: ties in the key \<open>f\<close> are broken by the node id. In every round of the
  loop of \<open>find_shortest_path\<close> the entry that is popped is the queued entry with the least
  \<open>f\<close> and, among those, the least node id, and its node is the node that the round closes.
  So the outcome does not depend on the order in which the entries were pushed: a graph with
  the source list and the neighbour lists in another order, with the same target list,
  centers and edge costs and with no node its own neighbour, gives the same outcome.
\<close>

theorem ties_broken_by_node_id:
  assumes "mset (source_nodes G') = mset (source_nodes G)"
    and "target_nodes G' = target_nodes G"
    and "\<forall>n. center_of (store G') n = center_of (store G) n"
    and "\<forall>n. set (neighbors_of (store G') n) = set (neighbors_of (store G) n)"
    and "get_edge_cost X (store G') = get_edge_cost X (store G)"
    and "\<forall>n. n \<notin> set (neighbors_of (store G) n)"
  shows "find_shortest_path X G' = find_shortest_path X G
       \<and> (\<forall>s f current.
             (f, current) \<in> set (queue s)
             \<and> (\<forall>(f', node) \<in> set (queue s). f < f' \<or> (f = f' \<and> current \<le> node))
             \<longrightarrow> fst (heappop (queue s)) = (f, current)
                 \<and> close_set (round_state (astar_step X G s)) = insert current (close_set s))"
proof -
  have hh: "\<forall>n. h X G' n = h X G n" using h_cong [OF assms(2,3)] by blast
  let ?s = "fold (seed_source X G) (source_nodes G) astar_init"
  let ?s' = "fold (seed_source X G') (source_nodes G') astar_init"
  from seed_reorder [OF assms(1) hh] have "same_entries ?s ?s'" .
  from astar_loop_reorder [OF assms(2-6) this]
  have r: "fst (astar_loop X G' ?s') = fst (astar_loop X G ?s)"
    and c: "came_from (snd (astar_loop X G' ?s')) = came_from (snd (astar_loop X G ?s))"
    by (simp_all add: same_entries_def)
  obtain e t where a: "astar_loop X G ?s = (e, t)" by (cases "astar_loop X G ?s")
  obtain e' t' where b: "astar_loop X G' ?s' = (e', t')" by (cases "astar_loop X G' ?s'")
  from r c a b have "e' = e" "came_from t' = came_from t" by simp_all
  with a b have 1: "find_shortest_path X G' = find_shortest_path X G"
    by (simp add: find_shortest_path_def split: loop_exit.splits)
  have 2: "fst (heappop (queue s)) = (f, current)
           \<and> close_set (round_state (astar_step X G s)) = insert current (close_set s)"
    if "(f, current) \<in> set (queue s)
        \<and> (\<forall>(f', node) \<in> set (queue s). f < f' \<or> (f = f' \<and> current \<le> node))"
    for s f current
  proof -
    from that have m: "(f, current) \<in> set (queue s)"
      "\<forall>(f', node) \<in> set (queue s). f < f' \<or> (f = f' \<and> current \<le> node)" by simp_all
    from least_entry_is_Min [OF m] astar_step_closes_least [OF m, of X G]
    show ?thesis by simp
  qed
  from 1 2 show ?thesis by blast
qed

theorem ties_broken_by_node_id_witness:
  "find_shortest_path demo_externals demo_tie_swapped = Return (Some [1, 0])
   \<and> queue demo_tie_state = [(Fin 1, 2), (Fin 1, 1)]
   \<and> close_set (round_state (astar_step demo_externals demo_tie_graph demo_tie_state)) = {0, 1}"
proof -
  have 1: "mset (source_nodes demo_tie_swapped) = mset (source_nodes demo_tie_graph)"
    by (simp add: demo_tie_swapped_def demo_tie_graph_def demo_defs)
  have 2: "target_nodes demo_tie_swapped = target_nodes demo_tie_graph"
    by (simp add: demo_tie_swapped_def demo_tie_graph_def demo_defs)
  have 3: "\<forall>n. center_of (store demo_tie_swapped) n = center_of (store demo_tie_graph) n"
    by (simp add: demo_tie_swapped_def demo_tie_graph_def demo_defs center_of_def)
  have 4: "\<forall>n. set (neighbors_of (store demo_tie_swapped) n)
               = set (neighbors_of (store demo_tie_graph) n)"
    by (auto simp: demo_tie_swapped_def demo_tie_graph_def demo_defs neighbors_of_def)
  have 5: "get_edge_cost demo_externals (store demo_tie_swapped)
             = get_edge_cost demo_externals (store demo_tie_graph)"
    using 3 by (simp add: demo_externals_def fun_eq_iff)
  have 6: "\<forall>n. n \<notin> set (neighbors_of (store demo_tie_graph) n)"
    by (simp add: demo_tie_graph_def demo_defs neighbors_of_def)
  note t = ties_broken_by_node_id [OF 1 2 3 4 5 6]
  have r: "find_shortest_path demo_externals demo_tie_graph = Return (Some [1, 0])"
    by (simp add: search_eval demo_defs demo_tie_graph_def)
  have q: "queue demo_tie_state = [(Fin 1, 2), (Fin 1, 1)]"
    and c: "close_set demo_tie_state = {0}"
    by (simp_all add: demo_tie_state_def search_eval demo_defs demo_tie_graph_def)
  have m: "(Fin 1, 1) \<in> set (queue demo_tie_state)
           \<and> (\<forall>(f', node) \<in> set (queue demo_tie_state). Fin 1 < f' \<or> (Fin 1 = f' \<and> 1 \<le> node))"
    unfolding q by simp
  from t m have "close_set (round_state (astar_step demo_externals demo_tie_graph demo_tie_state))
                   = insert 1 (close_set demo_tie_state)" by blast
  with c have "close_set (round_state (astar_step demo_externals demo_tie_graph demo_tie_state))
                   = {0, 1}" by auto
  with t r q show ?thesis by simp
qed
section \<open>The graph builder: proofs\<close>

lemma neighbors_of_dom: "b \<in> set (neighbors_of st a) \<Longrightarrow> a \<in> dom (map_of st)"
  by (cases "map_of st a") (auto simp: neighbors_of_def)

lemma map_of_map_entry':
  "map_of (AList.map_entry k f st) = (map_of st)(k := map_option f (map_of st k))"
  by (simp add: map_of_map_entry fun_eq_iff split: option.splits)

lemma dom_map_entry: "dom (map_of (AList.map_entry k f st)) = dom (map_of st)"
  by (auto simp: map_of_map_entry' dom_def split: if_splits)

lemma link_dom: "dom (map_of (link a b st)) = dom (map_of st)"
  by (simp add: link_def dom_map_entry)

lemma link_center: "center_of (link a b st) i = center_of st i"
  by (cases "map_of st i") (auto simp: link_def center_of_def map_of_map_entry')

lemma link_neighbors:
  "set (neighbors_of (link a b st) i) =
     (if i = a \<and> a \<in> dom (map_of st) then insert b (set (neighbors_of st a))
      else set (neighbors_of st i))"
  by (cases "map_of st i") (auto simp: link_def neighbors_of_def map_of_map_entry' split: if_splits)

lemma add_neighbor_dom: "dom (map_of (add_neighbor a b st)) = dom (map_of st)"
  by (simp add: add_neighbor_def link_dom)

lemma add_neighbor_center: "center_of (add_neighbor a b st) i = center_of st i"
  by (simp add: add_neighbor_def link_center)

lemma add_neighbor_neighbors:
  assumes "a \<in> dom (map_of st)" and "b \<in> dom (map_of st)"
  shows "set (neighbors_of (add_neighbor a b st) i) =
           set (neighbors_of st i) \<union> (if i = a then {b} else {}) \<union> (if i = b then {a} else {})"
  using assms by (auto simp: add_neighbor_def link_neighbors link_dom)

lemma add_neighbor_symmetric:
  assumes "edges_symmetric st" and "a \<in> dom (map_of st)" and "b \<in> dom (map_of st)"
  shows "edges_symmetric (add_neighbor a b st)"
  using assms(1) unfolding edges_symmetric_def add_neighbor_neighbors [OF assms(2,3)]
  by auto

lemma unlink_dom: "dom (map_of (unlink b a st)) = dom (map_of st)"
  by (simp add: unlink_def dom_map_entry)

lemma unlink_center: "center_of (unlink b a st) i = center_of st i"
  by (cases "map_of st i") (auto simp: unlink_def center_of_def map_of_map_entry')

lemma unlink_neighbors:
  "set (neighbors_of (unlink b a st) i) =
     (if i = b then set (neighbors_of st i) - {a} else set (neighbors_of st i))"
  by (cases "map_of st i") (auto simp: unlink_def neighbors_of_def map_of_map_entry')

lemma fold_unlink_dom: "dom (map_of (fold (\<lambda>b. unlink b a) bs st)) = dom (map_of st)"
  by (induction bs arbitrary: st) (simp_all add: unlink_dom)

lemma fold_unlink_center: "center_of (fold (\<lambda>b. unlink b a) bs st) i = center_of st i"
  by (induction bs arbitrary: st) (simp_all add: unlink_center)

lemma fold_unlink_neighbors:
  "set (neighbors_of (fold (\<lambda>b. unlink b a) bs st) i) =
     (if i \<in> set bs then set (neighbors_of st i) - {a} else set (neighbors_of st i))"
  by (induction bs arbitrary: st) (auto simp: unlink_neighbors)

lemma remove_all_neighbors_dom: "dom (map_of (remove_all_neighbors a st)) = dom (map_of st)"
  by (simp add: remove_all_neighbors_def dom_map_entry fold_unlink_dom)

lemma remove_all_neighbors_center: "center_of (remove_all_neighbors a st) i = center_of st i"
proof -
  let ?st = "fold (\<lambda>b. unlink b a) (neighbors_of st a) st"
  have "center_of (AList.map_entry a (\<lambda>n. n\<lparr>neighbors := []\<rparr>) ?st) i = center_of ?st i"
    by (cases "map_of ?st i") (auto simp: center_of_def map_of_map_entry')
  then show ?thesis by (simp add: remove_all_neighbors_def fold_unlink_center)
qed

lemma remove_all_neighbors_self: "neighbors_of (remove_all_neighbors a st) a = []"
proof -
  let ?st = "fold (\<lambda>b. unlink b a) (neighbors_of st a) st"
  show ?thesis
    by (cases "map_of ?st a") (auto simp: remove_all_neighbors_def neighbors_of_def map_of_map_entry')
qed

lemma remove_all_neighbors_other:
  assumes "i \<noteq> a"
  shows "set (neighbors_of (remove_all_neighbors a st) i) =
           (if i \<in> set (neighbors_of st a) then set (neighbors_of st i) - {a}
            else set (neighbors_of st i))"
proof -
  let ?st = "fold (\<lambda>b. unlink b a) (neighbors_of st a) st"
  from assms have "neighbors_of (AList.map_entry a (\<lambda>n. n\<lparr>neighbors := []\<rparr>) ?st) i = neighbors_of ?st i"
    by (simp add: neighbors_of_def map_of_map_entry')
  then show ?thesis by (simp add: remove_all_neighbors_def fold_unlink_neighbors)
qed

lemma remove_all_neighbors_symmetric_nbrs:
  assumes "edges_symmetric st"
  shows "set (neighbors_of (remove_all_neighbors a st) i) =
           (if i = a then {} else set (neighbors_of st i) - {a})"
proof (cases "i = a")
  case True
  then show ?thesis by (simp add: remove_all_neighbors_self)
next
  case False
  from assms have "a \<in> set (neighbors_of st i) \<longleftrightarrow> i \<in> set (neighbors_of st a)"
    by (simp add: edges_symmetric_def)
  with False show ?thesis by (auto simp: remove_all_neighbors_other)
qed

lemma remove_all_neighbors_symmetric:
  assumes "edges_symmetric st"
  shows "edges_symmetric (remove_all_neighbors a st)"
  using assms unfolding edges_symmetric_def remove_all_neighbors_symmetric_nbrs [OF assms]
  by auto

lemma new_node_facts:
  assumes "new_node c G = (i, G')"
  shows "i = next_id G" and "next_id G' = Suc (next_id G)"
    and "dom (map_of (store G')) = insert i (dom (map_of (store G)))"
    and "neighbors_of (store G') j = (if j = i then [] else neighbors_of (store G) j)"
    and "center_of (store G') j = (if j = i then c else center_of (store G) j)"
    and "nodes G' = nodes G" and "router G' = router G" and "source G' = source G"
    and "target G' = target G" and "graph_blockages G' = graph_blockages G"
    and "source_nodes G' = source_nodes G" and "target_nodes G' = target_nodes G"
  using assms by (auto simp: new_node_def update_conv' neighbors_of_def center_of_def)

lemma py_index_neg:
  "0 < k \<Longrightarrow> k \<le> int (length xs) \<Longrightarrow> py_index xs (- k) = Inr (xs ! nat (int (length xs) - k))"
  by (simp add: py_index_def Let_def)

lemma py_index_nat: "i < length xs \<Longrightarrow> py_index xs (int i) = Inr (xs ! i)"
  by (simp add: py_index_def Let_def)

lemma grows_refl: "grows G G"
  by (simp add: grows_def)

lemma grows_trans:
  assumes "grows G G'" and "grows G' G''"
  shows "grows G G''"
proof -
  from assms have a: "\<forall>i. set (neighbors_of (store G) i) \<subseteq> set (neighbors_of (store G') i)"
    and b: "\<forall>i. set (neighbors_of (store G') i) \<subseteq> set (neighbors_of (store G'') i)"
    by (simp_all add: grows_def)
  have "set (neighbors_of (store G) i) \<subseteq> set (neighbors_of (store G'') i)" for i
    using a b by (rule_tac subset_trans [of _ "set (neighbors_of (store G') i)"]) simp_all
  moreover from assms have "edges_symmetric (store G) \<longrightarrow> edges_symmetric (store G'')"
    by (simp add: grows_def)
  ultimately show ?thesis using assms by (simp add: grows_def)
qed

lemma connect_round_grows:
  assumes new: "new \<in> dom (map_of (store G))" and live: "set (nodes G) \<subseteq> dom (map_of (store G))"
    and idx: "0 < k" "k \<le> int (length (nodes G))"
  shows "\<exists>G'. connect_round X new (- k) G = Inr G' \<and> grows G G'"
proof -
  let ?node = "nodes G ! nat (int (length (nodes G)) - k)"
  from idx have pi: "py_index (nodes G) (- k) = Inr ?node" by (rule py_index_neg)
  from idx have "nat (int (length (nodes G)) - k) < length (nodes G)" by linarith
  then have "?node \<in> set (nodes G)" by (rule nth_mem)
  with live have nd: "?node \<in> dom (map_of (store G))" by blast
  have "grows G (G\<lparr>store := add_neighbor new ?node (store G)\<rparr>)"
    unfolding grows_def
    using add_neighbor_symmetric [OF _ new nd]
    by (auto simp: add_neighbor_dom add_neighbor_center add_neighbor_neighbors [OF new nd])
  with pi show ?thesis by (auto simp: connect_round_def grows_refl)
qed

lemma connect_rounds_grow:
  assumes "new \<in> dom (map_of (store G))" and "set (nodes G) \<subseteq> dom (map_of (store G))"
    and "\<forall>i \<in> set idxs. 0 < - i \<and> - i \<le> int (length (nodes G))"
  shows "\<exists>G'. fold_err (connect_round X new) idxs G = Inr G' \<and> grows G G'"
  using assms
proof (induction idxs arbitrary: G)
  case Nil
  then show ?case by (simp add: grows_refl)
next
  case (Cons i idxs)
  from Cons.prems(3) have i: "0 < - i" "- i \<le> int (length (nodes G))" by simp_all
  from connect_round_grows [OF Cons.prems(1,2) i, of X]
  obtain G1 where G1: "connect_round X new i G = Inr G1" and gr: "grows G G1" by auto
  from gr have eq: "nodes G1 = nodes G" "dom (map_of (store G1)) = dom (map_of (store G))"
    by (simp_all add: grows_def)
  from Cons.prems eq have "new \<in> dom (map_of (store G1))"
    "set (nodes G1) \<subseteq> dom (map_of (store G1))"
    "\<forall>i \<in> set idxs. 0 < - i \<and> - i \<le> int (length (nodes G1))" by simp_all
  from Cons.IH [OF this] obtain G' where "fold_err (connect_round X new) idxs G1 = Inr G'"
    "grows G1 G'" by blast
  with G1 gr show ?case by (auto intro: grows_trans)
qed

lemma classify_round_frame:
  "store (classify_round X n G) = store G \<and> nodes (classify_round X n G) = nodes G
   \<and> next_id (classify_round X n G) = next_id G \<and> router (classify_round X n G) = router G
   \<and> source (classify_round X n G) = source G \<and> target (classify_round X n G) = target G
   \<and> graph_blockages (classify_round X n G) = graph_blockages G"
  by (simp add: classify_round_def)

lemma node_round_adds:
  assumes ev: "even (length (nodes G))" and ys: "y_values \<noteq> []"
    and live: "set (nodes G) \<subseteq> dom (map_of (store G))"
  shows "\<exists>G'. node_round X y_values x y G = Inr G' \<and> round_adds x y G G'"
proof -
  let ?b = "next_id G" and ?a = "Suc (next_id G)"
  let ?y_len = "int (length y_values)"
  obtain G1 where n1: "new_node \<lparr>px = x, py = y, pz = 0\<rparr> G = (?b, G1)"
    by (simp add: new_node_def)
  note f1 = new_node_facts [OF n1]
  obtain G2 where n2: "new_node \<lparr>px = x, py = y, pz = 1\<rparr> G1 = (?a, G2)"
    by (simp add: new_node_def f1(2))
  note f2 = new_node_facts [OF n2]
  define G3 where "G3 = G2\<lparr>store := add_neighbor ?b ?a (store G2)\<rparr>"
  have dom2: "dom (map_of (store G2)) = dom (map_of (store G)) \<union> {?b, ?a}"
    by (auto simp: f1(3) f2(3))
  then have b2: "?b \<in> dom (map_of (store G2))" and a2: "?a \<in> dom (map_of (store G2))" by auto
  have nb3: "set (neighbors_of (store G3) i) =
        set (neighbors_of (store G2) i) \<union> (if i = ?b then {?a} else {}) \<union> (if i = ?a then {?b} else {})"
    for i by (simp add: G3_def add_neighbor_neighbors [OF b2 a2])
  have nb2: "neighbors_of (store G2) i = (if i = ?a \<or> i = ?b then [] else neighbors_of (store G) i)"
    for i by (simp add: f1(4) f2(4))
  have c3: "center_of (store G3) i =
        (if i = ?a then \<lparr>px = x, py = y, pz = 1\<rparr>
         else if i = ?b then \<lparr>px = x, py = y, pz = 0\<rparr> else center_of (store G) i)" for i
    by (simp add: G3_def add_neighbor_center f1(5) f2(5))
  have dom3: "dom (map_of (store G3)) = dom (map_of (store G)) \<union> {?b, ?a}"
    by (simp add: G3_def add_neighbor_dom dom2)
  have fr3: "nodes G3 = nodes G" "next_id G3 = Suc (Suc (next_id G))" "router G3 = router G"
    "source G3 = source G" "target G3 = target G" "graph_blockages G3 = graph_blockages G"
    by (simp_all add: G3_def f1(2,6,7,8,9,10) f2(2,6,7,8,9,10))
  have sym3: "edges_symmetric (store G3)"
    if "edges_symmetric (store G)" "\<forall>i \<in> dom (map_of (store G)). i < next_id G"
  proof -
    have "\<not> ?b \<in> set (neighbors_of (store G) i) \<and> \<not> ?a \<in> set (neighbors_of (store G) i)" for i
    proof -
      have "j \<in> set (neighbors_of (store G) i) \<Longrightarrow> j < next_id G" for j
      proof -
        assume "j \<in> set (neighbors_of (store G) i)"
        with that(1) have "i \<in> set (neighbors_of (store G) j)" by (simp add: edges_symmetric_def)
        then have "j \<in> dom (map_of (store G))" by (rule neighbors_of_dom)
        with that(2) show "j < next_id G" by blast
      qed
      then show ?thesis by fastforce
    qed
    moreover have "neighbors_of (store G) ?b = []" "neighbors_of (store G) ?a = []"
      using that(2) neighbors_of_dom [of _ "store G"] 
      by (metis less_irrefl list.set_intros(1) neq_Nil_conv, 
          metis Suc_n_not_le_n less_imp_le list.set_intros(1) neq_Nil_conv)
    ultimately show ?thesis
      using that(1) unfolding edges_symmetric_def nb3 nb2 by auto
  qed
  let ?count = "int (length (nodes G3)) div 2"
  let ?left = "- (?y_len * 2)"
  let ?belows = "(if ?count mod ?y_len \<noteq> 0 then [- 2] else []) @ (if ?count \<ge> ?y_len then [?left] else [])"
  let ?aboves = "(if ?count mod ?y_len \<noteq> 0 then [- 1] else []) @ (if ?count \<ge> ?y_len then [?left + 1] else [])"
  from ys have yl: "0 < ?y_len" by simp
  from ev obtain m where m: "length (nodes G) = 2 * m" by (auto elim: evenE)
  have cnt: "?count = int m" by (simp add: fr3 m)
  have down: "2 \<le> int (length (nodes G3))" if "?count mod ?y_len \<noteq> 0"
  proof -
    from that have "?count \<noteq> 0" by auto
    with cnt have "1 \<le> m" by simp
    then show ?thesis by (simp add: fr3 m)
  qed
  have left: "?y_len * 2 \<le> int (length (nodes G3))" if "?count \<ge> ?y_len"
    using that cnt by (simp add: fr3 m)
  from live fr3 dom3 have live3: "set (nodes G3) \<subseteq> dom (map_of (store G3))" by auto
  from dom3 have b3: "?b \<in> dom (map_of (store G3))" and a3: "?a \<in> dom (map_of (store G3))" by auto
  have "\<forall>i \<in> set ?belows. 0 < - i \<and> - i \<le> int (length (nodes G3))"
    using down left yl by auto
  from connect_rounds_grow [OF b3 live3 this, of X]
  obtain G4 where G4: "fold_err (connect_round X ?b) ?belows G3 = Inr G4" and gr4: "grows G3 G4"
    by blast
  from gr4 have eq4: "nodes G4 = nodes G3" "dom (map_of (store G4)) = dom (map_of (store G3))"
    by (simp_all add: grows_def)
  from ys have yl2: "1 < ?y_len * 2" by (cases y_values) simp_all
  have "\<forall>i \<in> set ?aboves. 0 < - i \<and> - i \<le> int (length (nodes G4))"
    using down left yl yl2 unfolding eq4 by auto
  moreover from a3 eq4 have "?a \<in> dom (map_of (store G4))" by simp
  moreover from live3 eq4 have "set (nodes G4) \<subseteq> dom (map_of (store G4))" by simp
  ultimately obtain G5 where G5: "fold_err (connect_round X ?a) ?aboves G4 = Inr G5"
    and gr5: "grows G4 G5"
    using connect_rounds_grow [of ?a G4 ?aboves X] by blast
  from grows_trans [OF gr4 gr5] have gr: "grows G3 G5" .
  define G6 where "G6 = fold (classify_round X) [?b, ?a] G5"
  have fr6: "store G6 = store G5" "nodes G6 = nodes G5" "next_id G6 = next_id G5"
    "router G6 = router G5" "source G6 = source G5" "target G6 = target G5"
    "graph_blockages G6 = graph_blockages G5"
    by (simp_all add: G6_def classify_round_frame)
  define G' where "G' = G6\<lparr>nodes := nodes G6 @ [?b, ?a]\<rparr>"
  have res: "node_round X y_values x y G = Inr G'"
    using yl G4 G5 unfolding G'_def G6_def G3_def
    by (simp add: node_round_def Let_def n1 n2 f2(6))
  have st: "store G' = store G5" by (simp add: G'_def fr6)
  from gr have g: "nodes G5 = nodes G3" "next_id G5 = next_id G3" "router G5 = router G3"
    "source G5 = source G3" "target G5 = target G3" "graph_blockages G5 = graph_blockages G3"
    "dom (map_of (store G5)) = dom (map_of (store G3))"
    "\<forall>i. center_of (store G5) i = center_of (store G3) i"
    "\<forall>i. set (neighbors_of (store G3) i) \<subseteq> set (neighbors_of (store G5) i)"
    "edges_symmetric (store G3) \<longrightarrow> edges_symmetric (store G5)"
    by (simp_all add: grows_def)
  have "round_adds x y G G'"
    unfolding round_adds_def st
  proof (intro conjI allI impI)
    show "nodes G' = nodes G @ [?b, ?a]" by (simp add: G'_def fr6 g fr3)
    show "next_id G' = Suc (Suc (next_id G))" by (simp add: G'_def fr6 g fr3)
    show "router G' = router G" by (simp add: G'_def fr6 g fr3)
    show "source G' = source G" by (simp add: G'_def fr6 g fr3)
    show "target G' = target G" by (simp add: G'_def fr6 g fr3)
    show "graph_blockages G' = graph_blockages G" by (simp add: G'_def fr6 g fr3)
    show "dom (map_of (store G5)) = dom (map_of (store G)) \<union> {?b, ?a}" by (simp add: g dom3)
    show "center_of (store G5) ?b = \<lparr>px = x, py = y, pz = 0\<rparr>" by (simp add: g c3)
    show "center_of (store G5) ?a = \<lparr>px = x, py = y, pz = 1\<rparr>" by (simp add: g c3)
    show "?a \<in> set (neighbors_of (store G5) ?b)" using g(9) nb3 [of ?b] by auto
    show "?b \<in> set (neighbors_of (store G5) ?a)" using g(9) nb3 [of ?a] by auto
    show "edges_symmetric (store G5)"
      if "edges_symmetric (store G) \<and> (\<forall>i \<in> dom (map_of (store G)). i < next_id G)"
      using that sym3 g(10) by blast
  next
    fix i assume i: "i \<noteq> ?b \<and> i \<noteq> ?a"
    then show "center_of (store G5) i = center_of (store G) i" by (simp add: g c3)
    from i have "set (neighbors_of (store G) i) \<subseteq> set (neighbors_of (store G3) i)"
      by (simp add: nb3 nb2)
    with g(9) show "set (neighbors_of (store G) i) \<subseteq> set (neighbors_of (store G5) i)" by blast
  qed
  with res show ?thesis by blast
qed

lemma fold_err_append:
  "fold_err f (xs @ ys) s = (case fold_err f xs s of Inl e \<Rightarrow> Inl e | Inr s' \<Rightarrow> fold_err f ys s')"
  by (induction xs arbitrary: s) (auto split: sum.splits)

lemma fold_err_map: "fold_err f (map g xs) s = fold_err (\<lambda>x. f (g x)) xs s"
  by (induction xs arbitrary: s) (auto split: sum.splits)

lemma fold_err_nested:
  "fold_err (\<lambda>x. fold_err (f x) ys) xs s = fold_err (\<lambda>(x, y). f x y) (List.product xs ys) s"
  by (induction xs arbitrary: s) (auto simp: fold_err_append fold_err_map split: sum.splits)

lemma grid_inv_start: "grid_inv (G\<lparr>nodes := []\<rparr>) [] (G\<lparr>nodes := []\<rparr>)"
  by (simp add: grid_inv_def)

lemma grid_inv_round:
  assumes inv: "grid_inv G0 seen G" and ra: "round_adds x y G G'"
  shows "grid_inv G0 (seen @ [(x, y)]) G'"
proof -
  let ?n0 = "next_id G0"
  from inv have nodes: "nodes G = [?n0 ..< next_id G]"
    and nid: "next_id G = ?n0 + 2 * length seen"
    and dom: "dom (map_of (store G)) = dom (map_of (store G0)) \<union> {?n0 ..< next_id G}"
    and fr: "router G = router G0" "source G = source G0" "target G = target G0"
      "graph_blockages G = graph_blockages G0"
    and pairs: "\<forall>k < length seen.
           center_of (store G) (?n0 + 2 * k) = \<lparr>px = fst (seen ! k), py = snd (seen ! k), pz = 0\<rparr>
           \<and> center_of (store G) (Suc (?n0 + 2 * k))
               = \<lparr>px = fst (seen ! k), py = snd (seen ! k), pz = 1\<rparr>
           \<and> Suc (?n0 + 2 * k) \<in> set (neighbors_of (store G) (?n0 + 2 * k))
           \<and> ?n0 + 2 * k \<in> set (neighbors_of (store G) (Suc (?n0 + 2 * k)))"
    and sym: "edges_symmetric (store G0) \<and> (\<forall>i \<in> dom (map_of (store G0)). i < ?n0)
          \<longrightarrow> edges_symmetric (store G)"
    by (simp_all add: grid_inv_def)
  from ra have nodes': "nodes G' = nodes G @ [next_id G, Suc (next_id G)]"
    and nid': "next_id G' = Suc (Suc (next_id G))"
    and fr': "router G' = router G" "source G' = source G" "target G' = target G"
      "graph_blockages G' = graph_blockages G"
    and dom': "dom (map_of (store G')) = dom (map_of (store G)) \<union> {next_id G, Suc (next_id G)}"
    and cb: "center_of (store G') (next_id G) = \<lparr>px = x, py = y, pz = 0\<rparr>"
    and ca: "center_of (store G') (Suc (next_id G)) = \<lparr>px = x, py = y, pz = 1\<rparr>"
    and old: "\<forall>i. i \<noteq> next_id G \<and> i \<noteq> Suc (next_id G) \<longrightarrow>
           center_of (store G') i = center_of (store G) i
           \<and> set (neighbors_of (store G) i) \<subseteq> set (neighbors_of (store G') i)"
    and via: "Suc (next_id G) \<in> set (neighbors_of (store G') (next_id G))"
      "next_id G \<in> set (neighbors_of (store G') (Suc (next_id G)))"
    and sym': "edges_symmetric (store G) \<and> (\<forall>i \<in> dom (map_of (store G)). i < next_id G)
          \<longrightarrow> edges_symmetric (store G')"
    by (simp_all add: round_adds_def)
  have le: "?n0 \<le> next_id G" by (simp add: nid)
  have 1: "nodes G' = [?n0 ..< next_id G']"
    using le by (simp add: nodes' nodes nid' upt_Suc_append)
  have 2: "next_id G' = ?n0 + 2 * length (seen @ [(x, y)])" by (simp add: nid' nid)
  have 3: "dom (map_of (store G')) = dom (map_of (store G0)) \<union> {?n0 ..< next_id G'}"
    using le by (auto simp: dom' dom nid')
  have 4: "\<forall>k < length (seen @ [(x, y)]).
           center_of (store G') (?n0 + 2 * k)
             = \<lparr>px = fst ((seen @ [(x, y)]) ! k), py = snd ((seen @ [(x, y)]) ! k), pz = 0\<rparr>
           \<and> center_of (store G') (Suc (?n0 + 2 * k))
             = \<lparr>px = fst ((seen @ [(x, y)]) ! k), py = snd ((seen @ [(x, y)]) ! k), pz = 1\<rparr>
           \<and> Suc (?n0 + 2 * k) \<in> set (neighbors_of (store G') (?n0 + 2 * k))
           \<and> ?n0 + 2 * k \<in> set (neighbors_of (store G') (Suc (?n0 + 2 * k)))"
  proof (intro allI impI)
    fix k assume k: "k < length (seen @ [(x, y)])"
    show "center_of (store G') (?n0 + 2 * k)
             = \<lparr>px = fst ((seen @ [(x, y)]) ! k), py = snd ((seen @ [(x, y)]) ! k), pz = 0\<rparr>
           \<and> center_of (store G') (Suc (?n0 + 2 * k))
             = \<lparr>px = fst ((seen @ [(x, y)]) ! k), py = snd ((seen @ [(x, y)]) ! k), pz = 1\<rparr>
           \<and> Suc (?n0 + 2 * k) \<in> set (neighbors_of (store G') (?n0 + 2 * k))
           \<and> ?n0 + 2 * k \<in> set (neighbors_of (store G') (Suc (?n0 + 2 * k)))"
    proof (cases "k < length seen")
      case True
      then have ne: "?n0 + 2 * k \<noteq> next_id G \<and> ?n0 + 2 * k \<noteq> Suc (next_id G)"
        "Suc (?n0 + 2 * k) \<noteq> next_id G \<and> Suc (?n0 + 2 * k) \<noteq> Suc (next_id G)"
        by (simp_all add: nid)
      from old ne have "center_of (store G') (?n0 + 2 * k) = center_of (store G) (?n0 + 2 * k)"
        "center_of (store G') (Suc (?n0 + 2 * k)) = center_of (store G) (Suc (?n0 + 2 * k))"
        "set (neighbors_of (store G) (?n0 + 2 * k)) \<subseteq> set (neighbors_of (store G') (?n0 + 2 * k))"
        "set (neighbors_of (store G) (Suc (?n0 + 2 * k)))
           \<subseteq> set (neighbors_of (store G') (Suc (?n0 + 2 * k)))"
        by blast+
      with pairs True show ?thesis by (auto simp: nth_append)
    next
      case False
      with k have "k = length seen" by simp
      then have "?n0 + 2 * k = next_id G" "(seen @ [(x, y)]) ! k = (x, y)" by (simp_all add: nid)
      with cb ca via show ?thesis by simp
    qed
  qed
  have 5: "edges_symmetric (store G')"
    if "edges_symmetric (store G0) \<and> (\<forall>i \<in> dom (map_of (store G0)). i < ?n0)"
  proof -
    from that sym have "edges_symmetric (store G)" by blast
    moreover have "\<forall>i \<in> dom (map_of (store G)). i < next_id G"
    proof
      fix i assume "i \<in> dom (map_of (store G))"
      then have i: "i \<in> dom (map_of (store G0)) \<or> i < next_id G" by (auto simp: dom)
      show "i < next_id G"
      proof (cases "i \<in> dom (map_of (store G0))")
        case True
        with that have "i < next_id G0" by blast
        with le show ?thesis by linarith
      next
        case False
        with i show ?thesis by blast
      qed
    qed
    ultimately show ?thesis using sym' by blast
  qed
  from 1 2 3 4 5 fr fr' show ?thesis unfolding grid_inv_def by simp
qed

lemma grid_inv_live: "grid_inv G0 seen G \<Longrightarrow> set (nodes G) \<subseteq> dom (map_of (store G))"
  by (auto simp: grid_inv_def)

lemma grid_inv_even: "grid_inv G0 seen G \<Longrightarrow> even (length (nodes G))"
  by (simp add: grid_inv_def)

lemma grid_rounds:
  assumes "grid_inv G0 seen G" and "y_values \<noteq> []"
  shows "\<exists>G'. fold_err (\<lambda>(x, y). node_round X y_values x y) ps G = Inr G'
              \<and> grid_inv G0 (seen @ ps) G'"
  using assms(1)
proof (induction ps arbitrary: seen G)
  case Nil
  then show ?case by simp
next
  case (Cons p ps)
  obtain x y where p: "p = (x, y)" by (cases p)
  from node_round_adds [OF grid_inv_even [OF Cons.prems] assms(2) grid_inv_live [OF Cons.prems], of X x y]
  obtain G1 where G1: "node_round X y_values x y G = Inr G1" and ra: "round_adds x y G G1"
    by blast
  from grid_inv_round [OF Cons.prems ra] have "grid_inv G0 (seen @ [(x, y)]) G1" .
  from Cons.IH [OF this] obtain G' where
    "fold_err (\<lambda>(x, y). node_round X y_values x y) ps G1 = Inr G'"
    "grid_inv G0 ((seen @ [(x, y)]) @ ps) G'" by blast
  with G1 p show ?case by simp
qed

text \<open>\<open>generate_hanan_nodes\<close> never raises, and its result is the grid of all pairs.\<close>

lemma generate_hanan_nodes_grid:
  "\<exists>G'. generate_hanan_nodes X G xs ys = Inr G'
        \<and> grid_inv (G\<lparr>nodes := []\<rparr>) (List.product xs ys) G'"
proof (cases "ys = []")
  case True
  have p: "List.product xs ys = []" unfolding True by (induction xs) simp_all
  have "generate_hanan_nodes X G xs ys = Inr (G\<lparr>nodes := []\<rparr>)"
    by (simp add: generate_hanan_nodes_def fold_err_nested p)
  moreover have "grid_inv (G\<lparr>nodes := []\<rparr>) (List.product xs ys) (G\<lparr>nodes := []\<rparr>)"
    unfolding p by (rule grid_inv_start)
  ultimately show ?thesis by blast
next
  case False
  from grid_rounds [OF grid_inv_start False, of X "List.product xs ys" G]
  show ?thesis by (simp add: generate_hanan_nodes_def fold_err_nested)
qed

lemma pruned_start: "pruned X G (length (nodes G)) G"
  by (simp add: pruned_def)

lemma pruned_blocked: "pruned X G0 k G \<Longrightarrow> blocked X G n = blocked X G0 n"
  by (simp add: pruned_def blocked_def inside_shape_def)

lemma pruned_symmetric:
  assumes "pruned X G0 k G" and "edges_symmetric (store G0)"
  shows "edges_symmetric (store G)"
proof -
  from assms(1) have nb: "\<forall>i. set (neighbors_of (store G) i) =
             (if i \<in> set (drop k (nodes G0)) \<and> blocked X G0 i then {}
              else set (neighbors_of (store G0) i)
                     - {n \<in> set (drop k (nodes G0)). blocked X G0 n})"
    by (simp add: pruned_def)
  from assms(2) have "b \<in> set (neighbors_of (store G0) a) \<longleftrightarrow> a \<in> set (neighbors_of (store G0) b)"
    for a b by (simp add: edges_symmetric_def)
  then show ?thesis unfolding edges_symmetric_def by (auto simp: nb)
qed

lemma prune_step:
  assumes dist: "distinct (nodes G0)" and sym: "edges_symmetric (store G0)"
    and k: "Suc k \<le> length (nodes G0)" and inv: "pruned X G0 (Suc k) G"
  shows "\<exists>G'. prune_round X k G = Inr G' \<and> pruned X G0 k G'"
proof -
  let ?ns = "nodes G0"
  let ?keep = "\<lambda>n. \<not> blocked X G0 n"
  let ?a = "?ns ! k"
  from k have klt: "k < length ?ns" by simp
  from inv have nodes: "nodes G = take (Suc k) ?ns @ filter ?keep (drop (Suc k) ?ns)"
    and fr: "router G = router G0" "source G = source G0" "target G = target G0"
      "graph_blockages G = graph_blockages G0" "source_nodes G = source_nodes G0"
      "target_nodes G = target_nodes G0" "next_id G = next_id G0"
    and dom: "dom (map_of (store G)) = dom (map_of (store G0))"
    and cen: "\<forall>i. center_of (store G) i = center_of (store G0) i"
    and nb: "\<forall>i. set (neighbors_of (store G) i) =
             (if i \<in> set (drop (Suc k) ?ns) \<and> blocked X G0 i then {}
              else set (neighbors_of (store G0) i)
                     - {n \<in> set (drop (Suc k) ?ns). blocked X G0 n})"
    by (simp_all add: pruned_def)
  from klt have tk: "take (Suc k) ?ns = take k ?ns @ [?a]" by (rule take_Suc_conv_app_nth)
  from klt have dk: "drop k ?ns = ?a # drop (Suc k) ?ns" by (rule Cons_nth_drop_Suc [symmetric])
  from klt have "k < length (nodes G)" by (simp add: nodes)
  then have pi: "py_index (nodes G) (int k) = Inr (nodes G ! k)" by (rule py_index_nat)
  from klt have nk: "nodes G ! k = ?a" by (simp add: nodes nth_append)
  have bl: "blocked X G ?a = blocked X G0 ?a" by (rule pruned_blocked [OF inv])
  show ?thesis
  proof (cases "blocked X G0 ?a")
    case False
    with pi nk bl have "prune_round X k G = Inr G"
      by (simp add: prune_round_def blocked_def Let_def)
    moreover have "pruned X G0 k G"
      unfolding pruned_def using False fr dom cen nb
      by (auto simp: nodes tk dk)
    ultimately show ?thesis by blast
  next
    case True
    let ?G' = "G\<lparr>store := remove_all_neighbors ?a (store G), nodes := remove1 ?a (nodes G)\<rparr>"
    from True pi nk bl have res: "prune_round X k G = Inr ?G'"
      by (simp add: prune_round_def blocked_def Let_def)
    from dist have "distinct (take k ?ns @ drop k ?ns)" by simp
    then have "?a \<notin> set (take k ?ns)" unfolding dk by auto
    then have n': "remove1 ?a (nodes G) = take k ?ns @ filter ?keep (drop k ?ns)"
      using True by (simp add: nodes tk dk remove1_append)
    have symG: "edges_symmetric (store G)" by (rule pruned_symmetric [OF inv sym])
    have nb': "set (neighbors_of (store ?G') i) =
             (if i \<in> set (drop k ?ns) \<and> blocked X G0 i then {}
              else set (neighbors_of (store G0) i) - {n \<in> set (drop k ?ns). blocked X G0 n})"
      for i
      using True by (auto simp: remove_all_neighbors_symmetric_nbrs [OF symG] nb dk)
    have "pruned X G0 k ?G'"
      unfolding pruned_def
      using fr dom cen nb' n'
      by (simp add: remove_all_neighbors_dom remove_all_neighbors_center)
    with res show ?thesis by blast
  qed
qed

lemma prune_loop:
  assumes dist: "distinct (nodes G0)" and sym: "edges_symmetric (store G0)"
  shows "k \<le> length (nodes G0) \<Longrightarrow> pruned X G0 k G \<Longrightarrow>
     \<exists>G'. fold_err (prune_round X) (rev [0..<k]) G = Inr G' \<and> pruned X G0 0 G'"
proof (induction k arbitrary: G)
  case 0
  then show ?case by simp
next
  case (Suc k)
  from prune_step [OF dist sym Suc.prems] obtain G1 where G1: "prune_round X k G = Inr G1"
    and p1: "pruned X G0 k G1" by blast
  from Suc.prems(1) have "k \<le> length (nodes G0)" by simp
  from Suc.IH [OF this p1] G1 show ?case by simp
qed

text \<open>\<open>remove_blocked_nodes\<close> never raises, and its result is the pruned graph.\<close>

lemma remove_blocked_nodes_pruned:
  assumes "distinct (nodes G)" and "edges_symmetric (store G)"
  shows "\<exists>G'. remove_blocked_nodes X G = Inr G' \<and> pruned X G 0 G'"
  unfolding remove_blocked_nodes_def
  by (rule prune_loop [OF assms order_refl pruned_start])

lemma fold_err_invariant:
  assumes "\<And>x s s'. P s \<Longrightarrow> f x s = Inr s' \<Longrightarrow> P s'"
  shows "P s \<Longrightarrow> fold_err f xs s = Inr s' \<Longrightarrow> P s'"
proof (induction xs arbitrary: s)
  case Nil
  then show ?case by simp
next
  case (Cons x xs)
  from Cons.prems(2) obtain s1 where s1: "f x s = Inr s1" "fold_err f xs s1 = Inr s'"
    by (auto split: sum.splits)
  from assms [OF Cons.prems(1) s1(1)] have "P s1" .
  from Cons.IH [OF this s1(2)] show ?case .
qed

lemma prune_round_cases:
  assumes "prune_round X i G = Inr G'"
  shows "G' = G \<or> (\<exists>a. G' = G\<lparr>store := remove_all_neighbors a (store G),
                                nodes := remove1 a (nodes G)\<rparr>)"
  using assms by (auto simp: prune_round_def Let_def split: sum.splits if_splits)

lemma remove_blocked_nodes_symmetric:
  assumes "remove_blocked_nodes X G = Inr G'" and "edges_symmetric (store G)"
  shows "edges_symmetric (store G')"
proof (rule fold_err_invariant [where P = "\<lambda>G. edges_symmetric (store G)" and f = "prune_round X",
      OF _ assms(2) assms(1) [unfolded remove_blocked_nodes_def]])
  fix i H H' assume "edges_symmetric (store H)" "prune_round X i H = Inr H'"
  with prune_round_cases [of X i H H'] show "edges_symmetric (store H')"
    by (auto simp: remove_all_neighbors_symmetric)
qed

lemma remove_blocked_nodes_frame:
  assumes "remove_blocked_nodes X G = Inr G'"
  shows "source_nodes G' = source_nodes G \<and> target_nodes G' = target_nodes G"
proof (rule fold_err_invariant [where f = "prune_round X"
      and P = "\<lambda>H. source_nodes H = source_nodes G \<and> target_nodes H = target_nodes G",
      OF _ _ assms [unfolded remove_blocked_nodes_def]])
  fix i H H' assume "source_nodes H = source_nodes G \<and> target_nodes H = target_nodes G"
    "prune_round X i H = Inr H'"
  with prune_round_cases [of X i H H']
  show "source_nodes H' = source_nodes G \<and> target_nodes H' = target_nodes G" by auto
qed simp

text \<open>The steps of \<open>create_graph\<close>.\<close>

lemma create_graph_steps:
  assumes "create_graph X G src tgt = Inr G'"
  shows "\<exists>bl xs ys G3.
           generate_cartesian_values X (G\<lparr>source := src, target := tgt, graph_blockages := bl\<rparr>)
             = Inr (xs, ys)
           \<and> generate_hanan_nodes X (G\<lparr>source := src, target := tgt, graph_blockages := bl\<rparr>) xs ys
             = Inr G3
           \<and> remove_blocked_nodes X G3 = Inr G'"
  using assms by (auto simp: create_graph_def Let_def split: sum.splits prod.splits)

lemma generate_cartesian_values_distinct:
  assumes "generate_cartesian_values X G = Inr (xs, ys)"
  shows "distinct xs \<and> distinct ys"
  using assms by (auto simp: generate_cartesian_values_def Let_def split: sum.splits)

lemma grid_inv_distinct: "grid_inv G0 seen G \<Longrightarrow> distinct (nodes G)"
  by (simp add: grid_inv_def)

text \<open>After generation and pruning.\<close>

lemma generated_then_pruned:
  assumes sym: "edges_symmetric (store G)" and fresh: "\<forall>i \<in> dom (map_of (store G)). i < next_id G"
  shows "\<exists>G1 G2. generate_hanan_nodes X G xs ys = Inr G1
           \<and> grid_inv (G\<lparr>nodes := []\<rparr>) (List.product xs ys) G1
           \<and> edges_symmetric (store G1)
           \<and> remove_blocked_nodes X G1 = Inr G2 \<and> pruned X G1 0 G2"
proof -
  from generate_hanan_nodes_grid [of X G xs ys]
  obtain G1 where G1: "generate_hanan_nodes X G xs ys = Inr G1"
    and gi: "grid_inv (G\<lparr>nodes := []\<rparr>) (List.product xs ys) G1" by blast
  from gi sym fresh have s1: "edges_symmetric (store G1)" by (simp add: grid_inv_def)
  from remove_blocked_nodes_pruned [OF grid_inv_distinct [OF gi] s1, of X]
  obtain G2 where "remove_blocked_nodes X G1 = Inr G2" "pruned X G1 0 G2" by blast
  with G1 gi s1 show ?thesis by blast
qed

lemma pruned_nodes: "pruned X G1 0 G2 \<Longrightarrow> nodes G2 = filter (\<lambda>n. \<not> blocked X G1 n) (nodes G1)"
  by (simp add: pruned_def)

lemma pruned_neighbors:
  "pruned X G1 0 G2 \<Longrightarrow>
     set (neighbors_of (store G2) i) =
       (if i \<in> set (nodes G1) \<and> blocked X G1 i then {}
        else set (neighbors_of (store G1) i) - {n \<in> set (nodes G1). blocked X G1 n})"
  by (simp add: pruned_def)

text \<open>The nodes of a grid with the same coordinates on layers 0 and 1 are the two nodes of
  one pair.\<close>

lemma grid_inv_pair:
  assumes gi: "grid_inv G0 seen G" and dist: "distinct seen"
    and a: "a \<in> set (nodes G)" and b: "b \<in> set (nodes G)"
    and same: "px (center_of (store G) a) = px (center_of (store G) b)"
      "py (center_of (store G) a) = py (center_of (store G) b)"
    and layers: "pz (center_of (store G) a) = 0" "pz (center_of (store G) b) = 1"
  shows "b \<in> set (neighbors_of (store G) a) \<and> a \<in> set (neighbors_of (store G) b)"
proof -
  let ?n0 = "next_id G0"
  from gi have nodes: "nodes G = [?n0 ..< next_id G]"
    and nid: "next_id G = ?n0 + 2 * length seen"
    and pairs: "\<forall>k < length seen.
           center_of (store G) (?n0 + 2 * k) = \<lparr>px = fst (seen ! k), py = snd (seen ! k), pz = 0\<rparr>
           \<and> center_of (store G) (Suc (?n0 + 2 * k))
               = \<lparr>px = fst (seen ! k), py = snd (seen ! k), pz = 1\<rparr>
           \<and> Suc (?n0 + 2 * k) \<in> set (neighbors_of (store G) (?n0 + 2 * k))
           \<and> ?n0 + 2 * k \<in> set (neighbors_of (store G) (Suc (?n0 + 2 * k)))"
    by (simp_all add: grid_inv_def)
  have split: "\<exists>k < length seen. i = ?n0 + 2 * k \<or> i = Suc (?n0 + 2 * k)" if "i \<in> set (nodes G)" for i
  proof -
    from that have i: "?n0 \<le> i" "i < ?n0 + 2 * length seen" by (simp_all add: nodes nid)
    let ?k = "(i - ?n0) div 2"
    from i have "?k < length seen" by linarith
    moreover from i have "i = ?n0 + 2 * ?k \<or> i = Suc (?n0 + 2 * ?k)" by linarith
    ultimately show ?thesis by blast
  qed
  from split [OF a] obtain k where k: "k < length seen" "a = ?n0 + 2 * k \<or> a = Suc (?n0 + 2 * k)"
    by blast
  from split [OF b] obtain j where j: "j < length seen" "b = ?n0 + 2 * j \<or> b = Suc (?n0 + 2 * j)"
    by blast
  from pairs k(1) have pk: "center_of (store G) (?n0 + 2 * k) = \<lparr>px = fst (seen ! k), py = snd (seen ! k), pz = 0\<rparr>"
    "center_of (store G) (Suc (?n0 + 2 * k)) = \<lparr>px = fst (seen ! k), py = snd (seen ! k), pz = 1\<rparr>"
    "Suc (?n0 + 2 * k) \<in> set (neighbors_of (store G) (?n0 + 2 * k))"
    "?n0 + 2 * k \<in> set (neighbors_of (store G) (Suc (?n0 + 2 * k)))" by blast+
  from pairs j(1) have pj: "center_of (store G) (?n0 + 2 * j) = \<lparr>px = fst (seen ! j), py = snd (seen ! j), pz = 0\<rparr>"
    "center_of (store G) (Suc (?n0 + 2 * j)) = \<lparr>px = fst (seen ! j), py = snd (seen ! j), pz = 1\<rparr>"
    by blast+
  from k(2) layers(1) pk have ak: "a = ?n0 + 2 * k" by auto
  from j(2) layers(2) pj have bj: "b = Suc (?n0 + 2 * j)" by auto
  from same ak bj pk pj have "seen ! k = seen ! j" by (simp add: prod_eq_iff)
  with dist k(1) j(1) have "k = j" by (simp add: nth_eq_iff_index_eq)
  with ak bj pk show ?thesis by simp
qed

lemma grid_inv_has_pair:
  assumes gi: "grid_inv G0 seen G" and xy: "(x, y) \<in> set seen"
  shows "\<exists>a \<in> set (nodes G). \<exists>b \<in> set (nodes G).
           center_of (store G) a = \<lparr>px = x, py = y, pz = 0\<rparr>
           \<and> center_of (store G) b = \<lparr>px = x, py = y, pz = 1\<rparr>
           \<and> b \<in> set (neighbors_of (store G) a) \<and> a \<in> set (neighbors_of (store G) b)"
proof -
  let ?n0 = "next_id G0"
  from gi have nodes: "nodes G = [?n0 ..< next_id G]"
    and nid: "next_id G = ?n0 + 2 * length seen"
    and pairs: "\<forall>k < length seen.
           center_of (store G) (?n0 + 2 * k) = \<lparr>px = fst (seen ! k), py = snd (seen ! k), pz = 0\<rparr>
           \<and> center_of (store G) (Suc (?n0 + 2 * k))
               = \<lparr>px = fst (seen ! k), py = snd (seen ! k), pz = 1\<rparr>
           \<and> Suc (?n0 + 2 * k) \<in> set (neighbors_of (store G) (?n0 + 2 * k))
           \<and> ?n0 + 2 * k \<in> set (neighbors_of (store G) (Suc (?n0 + 2 * k)))"
    by (simp_all add: grid_inv_def)
  from xy obtain k where k: "k < length seen" "seen ! k = (x, y)" by (auto simp: in_set_conv_nth)
  from k(1) have "?n0 + 2 * k \<in> set (nodes G)" "Suc (?n0 + 2 * k) \<in> set (nodes G)"
    by (simp_all add: nodes nid)
  moreover from pairs k have "center_of (store G) (?n0 + 2 * k) = \<lparr>px = x, py = y, pz = 0\<rparr>"
    "center_of (store G) (Suc (?n0 + 2 * k)) = \<lparr>px = x, py = y, pz = 1\<rparr>"
    "Suc (?n0 + 2 * k) \<in> set (neighbors_of (store G) (?n0 + 2 * k))"
    "?n0 + 2 * k \<in> set (neighbors_of (store G) (Suc (?n0 + 2 * k)))" by auto
  ultimately show ?thesis by blast
qed

lemma demo_built: "create_graph demo_externals demo_fresh demo_source demo_target = Inr demo_built"
proof -
  have "\<not> isl (create_graph demo_externals demo_fresh demo_source demo_target)" by code_simp
  then show ?thesis unfolding demo_built_def by (cases "create_graph demo_externals demo_fresh demo_source demo_target") simp_all
qed

lemma demo_blocked_built:
  "create_graph demo_externals demo_blocked_fresh demo_source demo_near_target = Inr demo_blocked_built"
proof -
  have "\<not> isl (create_graph demo_externals demo_blocked_fresh demo_source demo_near_target)"
    by code_simp
  then show ?thesis unfolding demo_blocked_built_def
    by (cases "create_graph demo_externals demo_blocked_fresh demo_source demo_near_target") simp_all
qed

lemma init_symmetric: "edges_symmetric (store (hanan_graph_init r n p))"
  by (simp add: hanan_graph_init_def edges_symmetric_def neighbors_of_def)

lemma init_fresh: "\<forall>i \<in> dom (map_of (store (hanan_graph_init r n p))). i < next_id (hanan_graph_init r n p)"
  by (simp add: hanan_graph_init_def)

lemma fold_append_each: "fold (\<lambda>pin b. b @ [f pin]) ps acc = acc @ map f ps"
  by (induction ps arbitrary: acc) simp_all

lemma fold_other_pins:
  "fold (\<lambda>(name, ps) bl. if name = p then bl else fold (\<lambda>pin b. b @ [f pin]) ps bl) nets acc
     = acc @ map f (concat (map snd (filter (\<lambda>(n, ps). n \<noteq> p) nets)))"
  by (induction nets arbitrary: acc) (auto simp: fold_append_each)

lemma fold_add_point:
  "fold add_point ps v = (fst v \<union> vx ` set ps, snd v \<union> vy ` set ps)"
  by (induction ps arbitrary: v) (auto simp: add_point_def)

lemma fold_add_corners:
  "fold (add_corners offset) bs v =
     (fst v \<union> (\<Union>b \<in> set bs. {vx (fst (rect b)) - offset, vx (snd (rect b)) + offset}),
      snd v \<union> (\<Union>b \<in> set bs. {vy (fst (rect b)) - offset, vy (snd (rect b)) + offset}))"
  by (induction bs arbitrary: v) (auto simp: add_corners_def Let_def split: prod.splits)

lemma shape_points_spec:
  "height X s \<noteq> 0 \<Longrightarrow> \<exists>ps. shape_points X s = Inr ps \<and> set ps = spec_points X s"
  by (auto simp: shape_points_def spec_points_def Let_def)

lemma seed_queue_ids:
  "snd ` set (queue (fold (seed_source X G) srcs s)) = snd ` set (queue s) \<union> set srcs"
  by (induction srcs arbitrary: s) (auto simp: seed_source_def heappush_def)

lemma create_graph_pruned:
  assumes sym: "edges_symmetric (store G)" and fresh: "\<forall>i \<in> dom (map_of (store G)). i < next_id G"
    and cg: "create_graph X G src tgt = Inr G'"
  shows "\<exists>seen G0 G1. distinct seen \<and> store G0 = store G \<and> grid_inv G0 seen G1
           \<and> edges_symmetric (store G1) \<and> pruned X G1 0 G'"
proof -
  from create_graph_steps [OF cg] obtain bl xs ys G3 where
    cv: "generate_cartesian_values X (G\<lparr>source := src, target := tgt, graph_blockages := bl\<rparr>)
             = Inr (xs, ys)"
    and gen: "generate_hanan_nodes X (G\<lparr>source := src, target := tgt, graph_blockages := bl\<rparr>) xs ys
             = Inr G3"
    and pr: "remove_blocked_nodes X G3 = Inr G'" by blast
  let ?G2 = "G\<lparr>source := src, target := tgt, graph_blockages := bl\<rparr>"
  from sym fresh have s2: "edges_symmetric (store ?G2)"
    "\<forall>i \<in> dom (map_of (store ?G2)). i < next_id ?G2" by simp_all
  from generated_then_pruned [OF s2, of X xs ys] gen pr
  have gi: "grid_inv (?G2\<lparr>nodes := []\<rparr>) (List.product xs ys) G3"
    and s3: "edges_symmetric (store G3)" and p: "pruned X G3 0 G'" by auto
  have st: "store (?G2\<lparr>nodes := []\<rparr>) = store G" by simp
  from generate_cartesian_values_distinct [OF cv] have "distinct (List.product xs ys)"
    by (simp add: distinct_product)
  with gi st s3 p show ?thesis by blast
qed


section \<open>The claims about the graph builder\<close>

text \<open>
  Claim C5, as the specification states it: every supplied obstruction and every pin of
  another net is inflated by half a routing-layer width plus one grid unit before it is used.
  \<open>get_blockages\<close> starts from a copy of the obstruction list of the router and appends
  the inflated pins to it; the obstructions themselves go through unchanged. On the example
  the one obstruction comes back with the rectangle it was given.
\<close>

theorem spec_blockages_counterexample:
  "get_blockages demo_externals demo_blocked_fresh ''a''
     = Inr [demo_pin ''blk'' (''m1'', ''drawing'') 0 0 1 1]
   \<and> spec_blockages demo_externals demo_blocked_fresh ''a''
     = [demo_pin ''blk'' (''m1'', ''drawing'') (- 2) (- 2) 3 3]
   \<and> get_blockages demo_externals demo_blocked_fresh ''a''
     \<noteq> Inr (spec_blockages demo_externals demo_blocked_fresh ''a'')"
  by (simp add: get_blockages_def spec_blockages_def other_pins_def inflated_by_def
      demo_blocked_fresh_def demo_blocked_router_def hanan_graph_init_def demo_defs)

text \<open>
  Claim C5, amended: when the router has a first routing-layer width \<open>w\<close>, the blockage list
  is the obstruction list of the router, unchanged and in its order, followed by the pins of
  every net with another name than the routed one, each passed through \<open>inflated_pin\<close> with
  spacing \<open>w / 2\<close> and multiple 1.
\<close>

theorem get_blockages_result:
  assumes "layer_widths (router G) = w # ws"
  shows "get_blockages X G pin_name =
           Inr (blockages (router G)
                @ map (\<lambda>pin. inflated_pin X pin (Some (w / 2)) 1) (other_pins (router G) pin_name))"
  using assms by (simp add: get_blockages_def other_pins_def fold_other_pins)

theorem get_blockages_result_witness:
  "get_blockages demo_externals demo_pins_fresh ''a''
     = Inr [demo_pin ''blk'' (''m1'', ''drawing'') 0 0 1 1,
            demo_pin ''b'' (''m1'', ''drawing'') 4 4 7 7]"
proof -
  have "layer_widths (router demo_pins_fresh) = 2 # []"
    by (simp add: demo_pins_fresh_def demo_pins_router_def hanan_graph_init_def demo_defs)
  from get_blockages_result [OF this, of demo_externals "''a''"] show ?thesis
    by (simp add: other_pins_def demo_pins_fresh_def demo_pins_router_def hanan_graph_init_def
        demo_defs demo_inflate_def)
qed

text \<open>
  Claim C7: for a source and a target shape of non-zero height, \<open>generate_cartesian_values\<close>
  returns two lists. The x values are the x coordinates of the points of source and target
  (top and bottom centre for a ratio of at most one half, left and right centre for a ratio
  of at least two, the centre otherwise) together with, for every collected blockage, its
  lower-left x minus the grid offset and its upper-right x plus the grid offset; the y values
  are the same for y. Each list is sorted and holds no value twice.
\<close>

theorem candidate_coordinates:
  assumes "height X (source G) \<noteq> 0" and "height X (target G) \<noteq> 0"
  shows "\<exists>xs ys. generate_cartesian_values X G = Inr (xs, ys)
           \<and> set xs = vx ` (spec_points X (source G) \<union> spec_points X (target G))
                \<union> (\<Union>b \<in> set (graph_blockages G).
                      {vx (fst (rect b)) - drc_grid X, vx (snd (rect b)) + drc_grid X})
           \<and> set ys = vy ` (spec_points X (source G) \<union> spec_points X (target G))
                \<union> (\<Union>b \<in> set (graph_blockages G).
                      {vy (fst (rect b)) - drc_grid X, vy (snd (rect b)) + drc_grid X})
           \<and> sorted xs \<and> distinct xs \<and> sorted ys \<and> distinct ys"
proof -
  from shape_points_spec [OF assms(1)] obtain ps where ps: "shape_points X (source G) = Inr ps"
    "set ps = spec_points X (source G)" by blast
  from shape_points_spec [OF assms(2)] obtain pt where pt: "shape_points X (target G) = Inr pt"
    "set pt = spec_points X (target G)" by blast
  let ?XS = "vx ` (spec_points X (source G) \<union> spec_points X (target G))
                \<union> (\<Union>b \<in> set (graph_blockages G).
                      {vx (fst (rect b)) - drc_grid X, vx (snd (rect b)) + drc_grid X})"
  let ?YS = "vy ` (spec_points X (source G) \<union> spec_points X (target G))
                \<union> (\<Union>b \<in> set (graph_blockages G).
                      {vy (fst (rect b)) - drc_grid X, vy (snd (rect b)) + drc_grid X})"
  have fin: "finite ?XS" "finite ?YS" by (simp_all add: spec_points_def)
  have "generate_cartesian_values X G = Inr (sorted_list_of_set ?XS, sorted_list_of_set ?YS)"
    by (simp add: generate_cartesian_values_def ps pt Let_def fold_add_point fold_add_corners
        image_Un)
  with fin show ?thesis by simp
qed

theorem candidate_coordinates_witness:
  "generate_cartesian_values demo_externals demo_unbuilt
     = Inr ([- 1, 1 / 2, 2], [- 1, 1 / 2, 2])"
proof -
  have g: "source demo_unbuilt = demo_source" "target demo_unbuilt = demo_near_target"
    "graph_blockages demo_unbuilt = [demo_pin ''blk'' (''m1'', ''drawing'') 0 0 1 1]"
    by (simp_all add: demo_unbuilt_def)
  have h: "height demo_externals (source demo_unbuilt) \<noteq> 0"
    "height demo_externals (target demo_unbuilt) \<noteq> 0"
    unfolding g by (simp_all add: demo_source_def demo_near_target_def demo_defs)
  have sp: "spec_points demo_externals demo_source = {\<lparr>vx = 1 / 2, vy = 1 / 2\<rparr>}"
    "spec_points demo_externals demo_near_target = {\<lparr>vx = 2, vy = 1 / 2\<rparr>}"
    by (simp_all add: spec_points_def demo_source_def demo_near_target_def demo_defs)
  from candidate_coordinates [OF h] obtain xs ys where
    r: "generate_cartesian_values demo_externals demo_unbuilt = Inr (xs, ys)"
    and xs: "set xs = vx ` (spec_points demo_externals (source demo_unbuilt)
                            \<union> spec_points demo_externals (target demo_unbuilt))
                \<union> (\<Union>b \<in> set (graph_blockages demo_unbuilt).
                      {vx (fst (rect b)) - drc_grid demo_externals,
                       vx (snd (rect b)) + drc_grid demo_externals})"
    and ys: "set ys = vy ` (spec_points demo_externals (source demo_unbuilt)
                            \<union> spec_points demo_externals (target demo_unbuilt))
                \<union> (\<Union>b \<in> set (graph_blockages demo_unbuilt).
                      {vy (fst (rect b)) - drc_grid demo_externals,
                       vy (snd (rect b)) + drc_grid demo_externals})"
    and so: "sorted xs" "distinct xs" "sorted ys" "distinct ys"
    by (elim exE conjE)
  from xs have "set xs = set [- 1, 1 / 2, 2]"
    unfolding g sp by (simp add: demo_defs insert_commute)
  with so(1,2) have x: "xs = [- 1, 1 / 2, 2]" by (intro sorted_distinct_set_unique) simp_all
  from ys have "set ys = set [- 1, 1 / 2, 2]"
    unfolding g sp by (simp add: demo_defs insert_commute)
  with so(3,4) have y: "ys = [- 1, 1 / 2, 2]" by (intro sorted_distinct_set_unique) simp_all
  from r x y show ?thesis by simp
qed

text \<open>
  Claim C9: edges are symmetric in every constructed graph. Started from a graph with
  symmetric edges whose node ids are all below the next free id (the graph of the constructor
  is one), node generation never raises and ends in a graph with symmetric edges; pruning
  keeps the edges symmetric; and so the graph that \<open>create_graph\<close> returns has symmetric
  edges.
\<close>

theorem edges_stay_symmetric:
  assumes sym: "edges_symmetric (store G)" and fresh: "\<forall>i \<in> dom (map_of (store G)). i < next_id G"
  shows "(\<exists>G1. generate_hanan_nodes X G xs ys = Inr G1 \<and> edges_symmetric (store G1))
       \<and> (\<forall>H H'. edges_symmetric (store H) \<and> remove_blocked_nodes X H = Inr H'
             \<longrightarrow> edges_symmetric (store H'))
       \<and> (\<forall>G'. create_graph X G src tgt = Inr G' \<longrightarrow> edges_symmetric (store G'))"
proof (intro conjI allI impI)
  from generated_then_pruned [OF sym fresh, of X xs ys]
  show "\<exists>G1. generate_hanan_nodes X G xs ys = Inr G1 \<and> edges_symmetric (store G1)" by blast
next
  fix H H' assume "edges_symmetric (store H) \<and> remove_blocked_nodes X H = Inr H'"
  then show "edges_symmetric (store H')" using remove_blocked_nodes_symmetric by blast
next
  fix G' assume "create_graph X G src tgt = Inr G'"
  from create_graph_pruned [OF sym fresh this] obtain G1 where
    "edges_symmetric (store G1)" "pruned X G1 0 G'" by blast
  then show "edges_symmetric (store G')" using pruned_symmetric by blast
qed

theorem edges_stay_symmetric_witness:
  "edges_symmetric (store demo_blocked_built)
   \<and> (9 \<in> set (neighbors_of (store demo_blocked_built) 7))
       = (7 \<in> set (neighbors_of (store demo_blocked_built) 9))"
proof -
  from edges_stay_symmetric [OF init_symmetric init_fresh] demo_blocked_built
  have "edges_symmetric (store demo_blocked_built)"
    unfolding demo_blocked_fresh_def by blast
  then show ?thesis by (simp add: edges_symmetric_def)
qed

text \<open>
  Claim C8: node generation makes, for every pair of an x and a y value, a layer-0 node and a
  layer-1 node at that place that are neighbours of each other, whatever the blockages; and in
  the graph that \<open>create_graph\<close> returns, two nodes of the node list at the same place, one on
  layer 0 and one on layer 1, are neighbours of each other.
\<close>

theorem via_pairs_connected:
  assumes sym: "edges_symmetric (store G)" and fresh: "\<forall>i \<in> dom (map_of (store G)). i < next_id G"
  shows "(\<exists>G1. generate_hanan_nodes X G xs ys = Inr G1
            \<and> (\<forall>x \<in> set xs. \<forall>y \<in> set ys. \<exists>a \<in> set (nodes G1). \<exists>b \<in> set (nodes G1).
                  center_of (store G1) a = \<lparr>px = x, py = y, pz = 0\<rparr>
                  \<and> center_of (store G1) b = \<lparr>px = x, py = y, pz = 1\<rparr>
                  \<and> b \<in> set (neighbors_of (store G1) a) \<and> a \<in> set (neighbors_of (store G1) b)))
       \<and> (\<forall>G'. create_graph X G src tgt = Inr G' \<longrightarrow>
             (\<forall>a \<in> set (nodes G'). \<forall>b \<in> set (nodes G').
                px (center_of (store G') a) = px (center_of (store G') b)
                \<and> py (center_of (store G') a) = py (center_of (store G') b)
                \<and> pz (center_of (store G') a) = 0 \<and> pz (center_of (store G') b) = 1
                \<longrightarrow> b \<in> set (neighbors_of (store G') a) \<and> a \<in> set (neighbors_of (store G') b)))"
proof (intro conjI allI impI ballI)
  from generate_hanan_nodes_grid [of X G xs ys] obtain G1 where
    G1: "generate_hanan_nodes X G xs ys = Inr G1"
    and gi: "grid_inv (G\<lparr>nodes := []\<rparr>) (List.product xs ys) G1" by blast
  have "\<forall>x \<in> set xs. \<forall>y \<in> set ys. \<exists>a \<in> set (nodes G1). \<exists>b \<in> set (nodes G1).
                  center_of (store G1) a = \<lparr>px = x, py = y, pz = 0\<rparr>
                  \<and> center_of (store G1) b = \<lparr>px = x, py = y, pz = 1\<rparr>
                  \<and> b \<in> set (neighbors_of (store G1) a) \<and> a \<in> set (neighbors_of (store G1) b)"
  proof (intro ballI)
    fix x y assume "x \<in> set xs" "y \<in> set ys"
    then have "(x, y) \<in> set (List.product xs ys)" by simp
    from grid_inv_has_pair [OF gi this]
    show "\<exists>a \<in> set (nodes G1). \<exists>b \<in> set (nodes G1).
                  center_of (store G1) a = \<lparr>px = x, py = y, pz = 0\<rparr>
                  \<and> center_of (store G1) b = \<lparr>px = x, py = y, pz = 1\<rparr>
                  \<and> b \<in> set (neighbors_of (store G1) a) \<and> a \<in> set (neighbors_of (store G1) b)" .
  qed
  with G1 show "\<exists>G1. generate_hanan_nodes X G xs ys = Inr G1
            \<and> (\<forall>x \<in> set xs. \<forall>y \<in> set ys. \<exists>a \<in> set (nodes G1). \<exists>b \<in> set (nodes G1).
                  center_of (store G1) a = \<lparr>px = x, py = y, pz = 0\<rparr>
                  \<and> center_of (store G1) b = \<lparr>px = x, py = y, pz = 1\<rparr>
                  \<and> b \<in> set (neighbors_of (store G1) a) \<and> a \<in> set (neighbors_of (store G1) b))"
    by blast
next
  fix G' a b
  assume cg: "create_graph X G src tgt = Inr G'"
    and a: "a \<in> set (nodes G')" and b: "b \<in> set (nodes G')"
    and c: "px (center_of (store G') a) = px (center_of (store G') b)
                \<and> py (center_of (store G') a) = py (center_of (store G') b)
                \<and> pz (center_of (store G') a) = 0 \<and> pz (center_of (store G') b) = 1"
  from create_graph_pruned [OF sym fresh cg] obtain seen G0 G1 where
    ds: "distinct seen" and gi: "grid_inv G0 seen G1"
    and p: "pruned X G1 0 G'" by blast
  from p have cen: "\<forall>i. center_of (store G') i = center_of (store G1) i" by (simp add: pruned_def)
  from a b pruned_nodes [OF p] have ab: "a \<in> set (nodes G1)" "b \<in> set (nodes G1)"
    "\<not> blocked X G1 a" "\<not> blocked X G1 b" by simp_all
  from c cen have c1: "px (center_of (store G1) a) = px (center_of (store G1) b)"
    "py (center_of (store G1) a) = py (center_of (store G1) b)"
    "pz (center_of (store G1) a) = 0" "pz (center_of (store G1) b) = 1" by simp_all
  from grid_inv_pair [OF gi ds ab(1,2) c1]
  have "b \<in> set (neighbors_of (store G1) a)" "a \<in> set (neighbors_of (store G1) b)" by simp_all
  with ab show "b \<in> set (neighbors_of (store G') a)" "a \<in> set (neighbors_of (store G') b)"
    by (simp_all add: pruned_neighbors [OF p])
qed

theorem via_pairs_connected_witness:
  "9 \<in> set (neighbors_of (store demo_blocked_built) 10) = False
   \<and> 11 \<in> set (neighbors_of (store demo_blocked_built) 10)
   \<and> 10 \<in> set (neighbors_of (store demo_blocked_built) 11)"
proof -
  have n: "10 \<in> set (nodes demo_blocked_built)" "11 \<in> set (nodes demo_blocked_built)"
    by code_simp+
  have c: "px (center_of (store demo_blocked_built) 10) = px (center_of (store demo_blocked_built) 11)
         \<and> py (center_of (store demo_blocked_built) 10) = py (center_of (store demo_blocked_built) 11)
         \<and> pz (center_of (store demo_blocked_built) 10) = 0
         \<and> pz (center_of (store demo_blocked_built) 11) = 1"
    by code_simp
  from via_pairs_connected [OF init_symmetric init_fresh] demo_blocked_built
  have "\<forall>a \<in> set (nodes demo_blocked_built). \<forall>b \<in> set (nodes demo_blocked_built).
                px (center_of (store demo_blocked_built) a) = px (center_of (store demo_blocked_built) b)
                \<and> py (center_of (store demo_blocked_built) a) = py (center_of (store demo_blocked_built) b)
                \<and> pz (center_of (store demo_blocked_built) a) = 0
                \<and> pz (center_of (store demo_blocked_built) b) = 1
                \<longrightarrow> b \<in> set (neighbors_of (store demo_blocked_built) a)
                    \<and> a \<in> set (neighbors_of (store demo_blocked_built) b)"
    unfolding demo_blocked_fresh_def by blast
  with n c have "11 \<in> set (neighbors_of (store demo_blocked_built) 10)
     \<and> 10 \<in> set (neighbors_of (store demo_blocked_built) 11)" by blast
  moreover have "9 \<in> set (neighbors_of (store demo_blocked_built) 10) = False" by code_simp
  ultimately show ?thesis by blast
qed

text \<open>
  Claim C6: after \<open>create_graph\<close>, no node of the node list has its centre inside a
  collected blockage on the layer of that blockage; and every node made by this call whose
  centre is inside a collected blockage is gone from the node list, has no neighbours, and is
  a neighbour of no node.
\<close>

theorem no_node_in_blockage:
  assumes sym: "edges_symmetric (store G)" and fresh: "\<forall>i \<in> dom (map_of (store G)). i < next_id G"
    and cg: "create_graph X G src tgt = Inr G'"
  shows "(\<forall>B \<in> set (graph_blockages G'). \<forall>N \<in> set (nodes G').
            \<not> inside_shape X G' (center_of (store G') N) B)
       \<and> (\<forall>N. N \<in> dom (map_of (store G')) \<and> N \<notin> dom (map_of (store G))
               \<and> (\<exists>B \<in> set (graph_blockages G'). inside_shape X G' (center_of (store G') N) B)
             \<longrightarrow> N \<notin> set (nodes G') \<and> neighbors_of (store G') N = []
                 \<and> (\<forall>M. N \<notin> set (neighbors_of (store G') M)))"
proof -
  from create_graph_pruned [OF sym fresh cg] obtain seen G0 G1 where
    st: "store G0 = store G" and gi: "grid_inv G0 seen G1" and p: "pruned X G1 0 G'" by blast
  from p have bl: "blocked X G' n = blocked X G1 n" for n by (rule pruned_blocked)
  have ins: "(\<exists>B \<in> set (graph_blockages G'). inside_shape X G' (center_of (store G') n) B)
               = blocked X G1 n" for n
    unfolding bl [symmetric] by (simp add: blocked_def list_ex_iff)
  have 1: "\<forall>B \<in> set (graph_blockages G'). \<forall>N \<in> set (nodes G').
            \<not> inside_shape X G' (center_of (store G') N) B"
  proof (intro ballI)
    fix B N assume B: "B \<in> set (graph_blockages G')" and "N \<in> set (nodes G')"
    with pruned_nodes [OF p] have "\<not> blocked X G1 N" by simp
    with ins [of N] B show "\<not> inside_shape X G' (center_of (store G') N) B" by blast
  qed
  have 2: "N \<notin> set (nodes G') \<and> neighbors_of (store G') N = []
                 \<and> (\<forall>M. N \<notin> set (neighbors_of (store G') M))"
    if N: "N \<in> dom (map_of (store G')) \<and> N \<notin> dom (map_of (store G))
               \<and> (\<exists>B \<in> set (graph_blockages G'). inside_shape X G' (center_of (store G') N) B)"
    for N
  proof -
    from p have "dom (map_of (store G')) = dom (map_of (store G1))" by (simp add: pruned_def)
    moreover from gi st have "dom (map_of (store G1)) = dom (map_of (store G)) \<union> set (nodes G1)"
      by (simp add: grid_inv_def)
    ultimately have n1: "N \<in> set (nodes G1)" using N by auto
    from N ins [of N] have b: "blocked X G1 N" by blast
    from n1 b pruned_nodes [OF p] have "N \<notin> set (nodes G')" by simp
    moreover from n1 b pruned_neighbors [OF p, of N] have "neighbors_of (store G') N = []" by simp
    moreover from n1 b have "N \<notin> set (neighbors_of (store G') M)" for M
      by (simp add: pruned_neighbors [OF p])
    ultimately show ?thesis by blast
  qed
  from 1 2 show ?thesis by blast
qed

theorem no_node_in_blockage_witness:
  "8 \<notin> set (nodes demo_blocked_built) \<and> neighbors_of (store demo_blocked_built) 8 = []
   \<and> 8 \<notin> set (neighbors_of (store demo_blocked_built) 9)
   \<and> \<not> inside_shape demo_externals demo_blocked_built (center_of (store demo_blocked_built) 9)
         (demo_pin ''blk'' (''m1'', ''drawing'') 0 0 1 1)"
proof -
  have cg: "create_graph demo_externals (hanan_graph_init demo_blocked_router 0 demo_source)
              demo_source demo_near_target = Inr demo_blocked_built"
    using demo_blocked_built by (simp add: demo_blocked_fresh_def)
  note t = no_node_in_blockage [OF init_symmetric init_fresh cg]
  have n8: "8 \<in> dom (map_of (store demo_blocked_built))
          \<and> 8 \<notin> dom (map_of (store (hanan_graph_init demo_blocked_router 0 demo_source)))
          \<and> (\<exists>B \<in> set (graph_blockages demo_blocked_built).
                inside_shape demo_externals demo_blocked_built (center_of (store demo_blocked_built) 8) B)"
  proof (intro conjI)
    have "map_of (store demo_blocked_built) 8 \<noteq> None" by code_simp
    then show "8 \<in> dom (map_of (store demo_blocked_built))" by auto
    show "8 \<notin> dom (map_of (store (hanan_graph_init demo_blocked_router 0 demo_source)))"
      by (simp add: hanan_graph_init_def)
    have "list_ex (inside_shape demo_externals demo_blocked_built (center_of (store demo_blocked_built) 8))
            (graph_blockages demo_blocked_built)" by code_simp
    then show "\<exists>B \<in> set (graph_blockages demo_blocked_built).
                inside_shape demo_externals demo_blocked_built (center_of (store demo_blocked_built) 8) B"
      by (simp add: list_ex_iff)
  qed
  have b: "demo_pin ''blk'' (''m1'', ''drawing'') 0 0 1 1 \<in> set (graph_blockages demo_blocked_built)"
    "9 \<in> set (nodes demo_blocked_built)" by code_simp+
  from t n8 have "8 \<notin> set (nodes demo_blocked_built) \<and> neighbors_of (store demo_blocked_built) 8 = []
     \<and> (\<forall>M. 8 \<notin> set (neighbors_of (store demo_blocked_built) M))" by blast
  moreover from t b have "\<not> inside_shape demo_externals demo_blocked_built
      (center_of (store demo_blocked_built) 9) (demo_pin ''blk'' (''m1'', ''drawing'') 0 0 1 1)" by blast
  ultimately show ?thesis by blast
qed

text \<open>
  Claim C10: \<open>remove_blocked_nodes\<close> leaves \<open>source_nodes\<close> and \<open>target_nodes\<close> as they
  were. A node inside a blockage leaves the node list and loses its neighbours, yet stays in
  the source or target list it was in, and every source node, pruned or not, is pushed on
  the queue when the search starts.
\<close>

theorem pruned_node_stays_in_lists:
  assumes pr: "remove_blocked_nodes X G = Inr G'"
  shows "source_nodes G' = source_nodes G \<and> target_nodes G' = target_nodes G
       \<and> snd ` set (queue (fold (seed_source X G') (source_nodes G') astar_init))
           = set (source_nodes G)
       \<and> (distinct (nodes G) \<and> edges_symmetric (store G) \<longrightarrow>
            (\<forall>n \<in> set (nodes G). blocked X G n \<longrightarrow>
               n \<notin> set (nodes G') \<and> neighbors_of (store G') n = []
               \<and> (n \<in> set (source_nodes G) \<longrightarrow> n \<in> set (source_nodes G'))
               \<and> (n \<in> set (target_nodes G) \<longrightarrow> n \<in> set (target_nodes G'))))"
proof -
  from remove_blocked_nodes_frame [OF pr]
  have fr: "source_nodes G' = source_nodes G" "target_nodes G' = target_nodes G" by simp_all
  have q: "snd ` set (queue (fold (seed_source X G') (source_nodes G') astar_init))
           = set (source_nodes G)"
    by (simp add: seed_queue_ids fr astar_init_def)
  have "n \<notin> set (nodes G') \<and> neighbors_of (store G') n = []"
    if ds: "distinct (nodes G) \<and> edges_symmetric (store G)"
      and n: "n \<in> set (nodes G)" "blocked X G n" for n
  proof -
    from ds have "distinct (nodes G)" "edges_symmetric (store G)" by simp_all
    from remove_blocked_nodes_pruned [OF this, of X] pr have p: "pruned X G 0 G'" by auto
    from n pruned_nodes [OF p] pruned_neighbors [OF p, of n] show ?thesis by simp
  qed
  with fr q show ?thesis by simp
qed

theorem pruned_node_stays_in_lists_witness:
  "source_nodes demo_pruned = [8] \<and> 8 \<notin> set (nodes demo_pruned)
   \<and> neighbors_of (store demo_pruned) 8 = []
   \<and> snd ` set (queue (fold (seed_source demo_externals demo_pruned) (source_nodes demo_pruned)
                          astar_init)) = {8}"
proof -
  have "\<not> isl (remove_blocked_nodes demo_externals demo_generated)" by code_simp
  then have pr: "remove_blocked_nodes demo_externals demo_generated = Inr demo_pruned"
    unfolding demo_pruned_def
    by (cases "remove_blocked_nodes demo_externals demo_generated") simp_all
  have u: "edges_symmetric (store demo_unbuilt)"
    "\<forall>i \<in> dom (map_of (store demo_unbuilt)). i < next_id demo_unbuilt"
    by (simp_all add: demo_unbuilt_def demo_blocked_fresh_def hanan_graph_init_def
        edges_symmetric_def neighbors_of_def)
  from generated_then_pruned [OF u, of demo_externals "[- 1, 1 / 2, 2]" "[- 1, 1 / 2, 2]"]
  have sym: "edges_symmetric (store demo_generated)"
    unfolding demo_generated_def by auto
  have dist: "distinct (nodes demo_generated)" by code_simp
  have s: "source_nodes demo_generated = [8]" "8 \<in> set (nodes demo_generated)"
    "blocked demo_externals demo_generated 8" by code_simp+
  note t = pruned_node_stays_in_lists [OF pr]
  from t s(1) have a: "source_nodes demo_pruned = [8]" by simp
  from t have "snd ` set (queue (fold (seed_source demo_externals demo_pruned)
      (source_nodes demo_pruned) astar_init)) = set (source_nodes demo_generated)" by blast
  also have "\<dots> = {8}" by (simp add: s(1))
  finally have q: "snd ` set (queue (fold (seed_source demo_externals demo_pruned)
      (source_nodes demo_pruned) astar_init)) = {8}" .
  from t dist sym s(2,3)
  have "8 \<notin> set (nodes demo_pruned) \<and> neighbors_of (store demo_pruned) 8 = []"
    by blast
  with a q show ?thesis by blast
qed


end
